theory Spec2Isabelle
  imports Main
begin

section \<open>Exceptions\<close>

text \<open>
  The Python exceptions that the modelled functions of
  \<^verbatim>\<open>ga_ua_extractions_manager/main.py\<close> can raise. A function that may raise
  returns \<open>exn + 'a\<close>, with \<open>Inl\<close> for the exception.
\<close>

datatype exn =
    ValueError
  | OverflowError
  | IllegalMonthError
  | TypeError
  | KeyError string
  | JSONDecodeError
  | UnboundLocalError
  | DateParseError
  | OutOfBoundsDatetime
  | OtherError string

section \<open>Calendar dates\<close>

text \<open>
  \<^verbatim>\<open>datetime.strptime(s, "%Y-%m-%d")\<close> yields a datetime whose time of day is
  midnight, so a datetime is modelled by its three calendar fields. The calendar is the
  proleptic Gregorian one of Python's \<^verbatim>\<open>datetime\<close> and \<^verbatim>\<open>calendar\<close> modules.
\<close>

datatype datetime = Datetime (year: int) (month: int) (day: int)

definition is_leap :: "int \<Rightarrow> bool" where
  "is_leap y \<longleftrightarrow> y mod 4 = 0 \<and> (y mod 100 \<noteq> 0 \<or> y mod 400 = 0)"

text \<open>\<^verbatim>\<open>calendar.mdays\<close>: the length of each month in a common year.\<close>

definition mdays :: "int \<Rightarrow> int" where
  "mdays m = (if m = 2 then 28 else if m = 4 \<or> m = 6 \<or> m = 9 \<or> m = 11 then 30 else 31)"

definition days_in_month :: "int \<Rightarrow> int \<Rightarrow> int" where
  "days_in_month y m = mdays m + (if m = 2 \<and> is_leap y then 1 else 0)"

text \<open>
  \<^verbatim>\<open>calendar.monthrange(year, month)[1]\<close>: the number of days of the month; a month
  outside 1..12 raises.
\<close>

definition monthrange_ndays :: "int \<Rightarrow> int \<Rightarrow> exn + int" where
  "monthrange_ndays y m =
     (if 1 \<le> m \<and> m \<le> 12 then Inr (days_in_month y m) else Inl IllegalMonthError)"

text \<open>
  A calendar date has a month from 1 to 12 and a day of that month. The datetime
  constructor accepts the calendar dates of the years 1 to 9999 and raises ValueError
  for every other triple.
\<close>

definition calendar_date :: "datetime \<Rightarrow> bool" where
  "calendar_date d \<longleftrightarrow>
     1 \<le> month d \<and> month d \<le> 12 \<and> 1 \<le> day d \<and> day d \<le> days_in_month (year d) (month d)"

definition valid_date :: "datetime \<Rightarrow> bool" where
  "valid_date d \<longleftrightarrow> 1 \<le> year d \<and> year d \<le> 9999 \<and> calendar_date d"

definition datetime_new :: "int \<Rightarrow> int \<Rightarrow> int \<Rightarrow> exn + datetime" where
  "datetime_new y m d =
     (if valid_date (Datetime y m d) then Inr (Datetime y m d) else Inl ValueError)"

definition days_before_year :: "int \<Rightarrow> int" where
  "days_before_year y =
     (y - 1) * 365 + (y - 1) div 4 - (y - 1) div 100 + (y - 1) div 400"

text \<open>
  The table of \<open>days_before_month\<close> is read for the months 1 to 12 only: every
  datetime that the functions below are applied to is a calendar date.
\<close>

definition days_before_month :: "int \<Rightarrow> int \<Rightarrow> int" where
  "days_before_month y m =
     [0, 0, 31, 59, 90, 120, 151, 181, 212, 243, 273, 304, 334] ! nat m
       + (if m > 2 \<and> is_leap y then 1 else 0)"

text \<open>\<^verbatim>\<open>toordinal()\<close>: day 1 is 0001-01-01.\<close>

definition toordinal :: "datetime \<Rightarrow> int" where
  "toordinal d = days_before_year (year d) + days_before_month (year d) (month d) + day d"

definition max_ordinal :: int where
  "max_ordinal = toordinal (Datetime 9999 12 31)"

text \<open>\<^verbatim>\<open>isoweekday()\<close>: Monday is 1, Sunday is 7.\<close>

definition isoweekday :: "datetime \<Rightarrow> int" where
  "isoweekday d = (let r = toordinal d mod 7 in if r = 0 then 7 else r)"

definition next_day :: "datetime \<Rightarrow> datetime" where
  "next_day d =
     (if day d < days_in_month (year d) (month d) then Datetime (year d) (month d) (day d + 1)
      else if month d < 12 then Datetime (year d) (month d + 1) 1
      else Datetime (year d + 1) 1 1)"

definition prev_day :: "datetime \<Rightarrow> datetime" where
  "prev_day d =
     (if 1 < day d then Datetime (year d) (month d) (day d - 1)
      else if 1 < month d then Datetime (year d) (month d - 1) (days_in_month (year d) (month d - 1))
      else Datetime (year d - 1) 12 31)"

text \<open>
  \<^verbatim>\<open>dt + timedelta(days=k)\<close> and \<^verbatim>\<open>dt - timedelta(days=k)\<close> on a Python datetime,
  for \<open>k \<ge> 0\<close>: the date \<open>k\<close> days later or earlier, and OverflowError when that date
  is outside the years 1 to 9999.
\<close>

primrec plus_days :: "datetime \<Rightarrow> nat \<Rightarrow> datetime" where
  "plus_days d 0 = d"
| "plus_days d (Suc k) = next_day (plus_days d k)"

primrec minus_days :: "datetime \<Rightarrow> nat \<Rightarrow> datetime" where
  "minus_days d 0 = d"
| "minus_days d (Suc k) = prev_day (minus_days d k)"

definition timedelta_add :: "datetime \<Rightarrow> nat \<Rightarrow> exn + datetime" where
  "timedelta_add d k =
     (if toordinal d + int k \<le> max_ordinal then Inr (plus_days d k) else Inl OverflowError)"

definition timedelta_sub :: "datetime \<Rightarrow> nat \<Rightarrow> exn + datetime" where
  "timedelta_sub d k =
     (if 1 \<le> toordinal d - int k then Inr (minus_days d k) else Inl OverflowError)"

section \<open>Date strings\<close>

definition digit_val :: "char \<Rightarrow> int option" where
  "digit_val c = map_of (zip ''0123456789'' [0, 1, 2, 3, 4, 5, 6, 7, 8, 9]) c"

definition digit_char :: "int \<Rightarrow> char" where
  "digit_char n = ''0123456789'' ! nat n"

text \<open>
  \<^verbatim>\<open>datetime.strptime(s, "%Y-%m-%d")\<close> matches the whole of \<open>s\<close> against
  \<^verbatim>\<open>(\d\d\d\d)-(1[0-2]|0[1-9]|[1-9])-(3[01]|[12]\d|0[1-9]|[1-9]| [1-9])\<close>
  and passes the three numbers to the datetime constructor; every failure is a
  ValueError. The three functions below read the three groups.
\<close>

fun year_field :: "string \<Rightarrow> int option" where
  "year_field [a, b, c, d] =
     (case (digit_val a, digit_val b, digit_val c, digit_val d) of
        (Some w, Some x, Some y, Some z) \<Rightarrow> Some (1000 * w + 100 * x + 10 * y + z)
      | _ \<Rightarrow> None)"
| "year_field _ = None"

fun month_field :: "string \<Rightarrow> int option" where
  "month_field [a] =
     (case digit_val a of Some x \<Rightarrow> if 1 \<le> x then Some x else None | None \<Rightarrow> None)"
| "month_field [a, b] =
     (case (digit_val a, digit_val b) of
        (Some x, Some y) \<Rightarrow>
          if (x = 1 \<and> y \<le> 2) \<or> (x = 0 \<and> 1 \<le> y) then Some (10 * x + y) else None
      | _ \<Rightarrow> None)"
| "month_field _ = None"

fun day_field :: "string \<Rightarrow> int option" where
  "day_field [a] =
     (case digit_val a of Some x \<Rightarrow> if 1 \<le> x then Some x else None | None \<Rightarrow> None)"
| "day_field [a, b] =
     (if a = CHR '' '' then
        (case digit_val b of Some y \<Rightarrow> if 1 \<le> y then Some y else None | None \<Rightarrow> None)
      else
        (case (digit_val a, digit_val b) of
           (Some x, Some y) \<Rightarrow>
             if (x = 3 \<and> y \<le> 1) \<or> x = 1 \<or> x = 2 \<or> (x = 0 \<and> 1 \<le> y)
             then Some (10 * x + y) else None
         | _ \<Rightarrow> None))"
| "day_field _ = None"

definition strptime :: "string \<Rightarrow> exn + datetime" where
  "strptime s =
     (let rest = drop 5 s;
          m = takeWhile (\<lambda>c. c \<noteq> CHR ''-'') rest;
          d = drop (length m + 1) rest
      in if 5 \<le> length s \<and> s ! 4 = CHR ''-'' \<and> length m < length rest then
           (case (year_field (take 4 s), month_field m, day_field d) of
              (Some y', Some m', Some d') \<Rightarrow> datetime_new y' m' d'
            | _ \<Rightarrow> Inl ValueError)
         else Inl ValueError)"

text \<open>The decimal digits of a number, without padding, as \<^verbatim>\<open>str(n)\<close> writes them.\<close>

fun str_nat :: "nat \<Rightarrow> string" where
  "str_nat n = (if n < 10 then [digit_char (int n)]
                else str_nat (n div 10) @ [digit_char (int (n mod 10))])"

text \<open>
  \<^verbatim>\<open>strftime("%Y-%m-%d")\<close>, as CPython prints it with the C library of Linux:
  the month and the day are padded to two digits, the year is not padded, so that
  \<^verbatim>\<open>datetime(999, 1, 1)\<close> is written \<^verbatim>\<open>999-01-01\<close>. The years 1000 to 9999 have
  four digits: for them the year is written as \<open>pad4\<close> writes it.
\<close>

definition pad2 :: "int \<Rightarrow> string" where
  "pad2 n = [digit_char (n div 10 mod 10), digit_char (n mod 10)]"

definition pad4 :: "int \<Rightarrow> string" where
  "pad4 n = [digit_char (n div 1000 mod 10), digit_char (n div 100 mod 10),
             digit_char (n div 10 mod 10), digit_char (n mod 10)]"

definition strftime :: "datetime \<Rightarrow> string" where
  "strftime d = str_nat (nat (year d)) @ ''-'' @ pad2 (month d) @ ''-'' @ pad2 (day d)"

section \<open>Timestamps and date ranges of pandas\<close>

text \<open>
  The planner hands date strings to \<^verbatim>\<open>pd.date_range\<close>, which turns each of them
  into a \<^verbatim>\<open>Timestamp\<close>. The model follows pandas 1.x and 2.x, where the timestamps of
  a date range count nanoseconds since 1970 in 64 bits: they run from
  1677-09-21 00:12:43.145224193 to 2262-04-11 23:47:16.854775807, so the midnights that
  exist as timestamps are those of 1677-09-22 to 2262-04-11, and a date outside them
  raises OutOfBoundsDatetime.
\<close>

definition Timestamp_min :: datetime where
  "Timestamp_min = Datetime 1677 9 22"

definition Timestamp_max :: datetime where
  "Timestamp_max = Datetime 2262 4 11"

definition in_timestamp_range :: "datetime \<Rightarrow> bool" where
  "in_timestamp_range d \<longleftrightarrow>
     toordinal Timestamp_min \<le> toordinal d \<and> toordinal d \<le> toordinal Timestamp_max"

text \<open>
  \<^verbatim>\<open>Timestamp(s)\<close> for a date string. The ISO 8601 reader of pandas wants a year
  of four digits, a month and a day of one or two digits, and a calendar date; it has
  no place for the blank that \<open>strptime\<close> accepts in front of a one-digit day. A
  string that it refuses goes to the fallback parser (dateutil), which refuses the blank
  day as well: DateParseError. So among the strings that \<open>strptime\<close> accepts, pandas
  reads those without a blank, as the same date. The fallback parser also reads strings
  of other shapes (which \<open>strptime\<close> refuses, so that the planner has raised before
  they reach pandas, and the short years that \<open>strftime\<close> writes below the year 1000,
  which are outside the timestamp range); their reading is not modelled and they
  raise here.
\<close>

definition parse_timestamp :: "string \<Rightarrow> exn + datetime" where
  "parse_timestamp s =
     (if CHR '' '' \<in> set s then Inl DateParseError
      else (case strptime s of
              Inl e \<Rightarrow> Inl DateParseError
            | Inr d \<Rightarrow> if in_timestamp_range d then Inr d else Inl OutOfBoundsDatetime))"

text \<open>
  \<^verbatim>\<open>ts + timedelta(days=k)\<close> on a timestamp, for \<open>k \<ge> 0\<close>: the date \<open>k\<close> days
  later, which has to be a timestamp again.
\<close>

definition timestamp_add :: "datetime \<Rightarrow> nat \<Rightarrow> exn + datetime" where
  "timestamp_add d k =
     (if toordinal d + int k \<le> toordinal Timestamp_max then Inr (plus_days d k)
      else Inl OutOfBoundsDatetime)"

text \<open>
  \<^verbatim>\<open>pd.date_range(start, end, freq=f).tolist()\<close> for the three frequencies the
  planner uses. The two strings are read as timestamps, \<open>start\<close> first; the result
  lists, in order, the days (\<^verbatim>\<open>"D"\<close>), the Sundays (\<^verbatim>\<open>"W"\<close>) or the first days
  of a month (\<^verbatim>\<open>"MS"\<close>) from \<open>start\<close> to \<open>end\<close>, both included, and is empty
  when \<open>start\<close> is after \<open>end\<close>. Every listed date lies between the two
  timestamps. For \<^verbatim>\<open>"W"\<close> and \<^verbatim>\<open>"MS"\<close> the generator of pandas also looks one
  period past the last date it lists; from a Sunday to a Saturday and from a first to a
  last day of a month, as the planner calls it, that is the day after \<open>end\<close>, which is
  a timestamp too (2262-04-11 is a Friday and not the end of a month).
\<close>

fun iterate_dates :: "nat \<Rightarrow> (datetime \<Rightarrow> datetime) \<Rightarrow> datetime \<Rightarrow> datetime list" where
  "iterate_dates 0 f d = []"
| "iterate_dates (Suc n) f d = d # iterate_dates n f (f d)"

definition next_month_start :: "datetime \<Rightarrow> datetime" where
  "next_month_start d =
     (if month d < 12 then Datetime (year d) (month d + 1) 1 else Datetime (year d + 1) 1 1)"

definition next_week :: "datetime \<Rightarrow> datetime" where
  "next_week d = plus_days d 7"

definition days_between :: "datetime \<Rightarrow> datetime \<Rightarrow> datetime list" where
  "days_between a b = iterate_dates (nat (toordinal b - toordinal a + 1)) next_day a"

definition sundays_between :: "datetime \<Rightarrow> datetime \<Rightarrow> datetime list" where
  "sundays_between a b =
     (let a' = plus_days a (nat ((7 - isoweekday a) mod 7))
      in iterate_dates (nat ((toordinal b - toordinal a') div 7 + 1)) next_week a')"

definition month_starts_between :: "datetime \<Rightarrow> datetime \<Rightarrow> datetime list" where
  "month_starts_between a b =
     (let a' = (if day a = 1 then a else next_month_start a)
      in iterate_dates (nat ((year b * 12 + month b) - (year a' * 12 + month a') + 1))
           next_month_start a')"

definition date_range :: "string \<Rightarrow> string \<Rightarrow> string \<Rightarrow> exn + datetime list" where
  "date_range start_str end_str freq =
     (case parse_timestamp start_str of
        Inl e \<Rightarrow> Inl e
      | Inr a \<Rightarrow>
          (case parse_timestamp end_str of
             Inl e \<Rightarrow> Inl e
           | Inr b \<Rightarrow>
               if freq = ''D'' then Inr (days_between a b)
               else if freq = ''W'' then Inr (sundays_between a b)
               else if freq = ''MS'' then Inr (month_starts_between a b)
               else Inl ValueError))"

section \<open>The batch planner\<close>

text \<open>One entry of \<^verbatim>\<open>batch_date_list\<close>: a dictionary with the two keys.\<close>

record batch_dict =
  start_date :: string
  end_date :: string

text \<open>The \<^verbatim>\<open>daily\<close> branch: the body of its loop, and the branch.\<close>

definition daily_batch :: "datetime \<Rightarrow> batch_dict" where
  "daily_batch date = \<lparr>start_date = strftime date, end_date = strftime date\<rparr>"

definition split_daily :: "string \<Rightarrow> string \<Rightarrow> exn + batch_dict list" where
  "split_daily start_str end_str =
     (case date_range start_str end_str ''D'' of
        Inl e \<Rightarrow> Inl e
      | Inr date_range_list \<Rightarrow> Inr (map daily_batch date_range_list))"

text \<open>
  The \<^verbatim>\<open>weekly\<close> branch: the body of its loop, the loop, and the branch. The two
  widening steps are arithmetic on Python datetimes and can overflow;
  \<^verbatim>\<open>date + timedelta(...)\<close> in the loop is arithmetic on a pandas timestamp.
\<close>

definition weekly_batch :: "datetime \<Rightarrow> exn + batch_dict" where
  "weekly_batch date =
     (case timestamp_add date (nat ((13 - isoweekday date) mod 7)) of
        Inl e \<Rightarrow> Inl e
      | Inr batch_end_date_dt \<Rightarrow>
          Inr \<lparr>start_date = strftime date, end_date = strftime batch_end_date_dt\<rparr>)"

fun weekly_batches :: "datetime list \<Rightarrow> exn + batch_dict list" where
  "weekly_batches [] = Inr []"
| "weekly_batches (date # dates) =
     (case weekly_batch date of
        Inl e \<Rightarrow> Inl e
      | Inr batch_dict \<Rightarrow>
          (case weekly_batches dates of
             Inl e \<Rightarrow> Inl e
           | Inr batch_date_list \<Rightarrow> Inr (batch_dict # batch_date_list)))"

definition split_weekly ::
  "string \<Rightarrow> string \<Rightarrow> datetime \<Rightarrow> datetime \<Rightarrow> exn + batch_dict list" where
  "split_weekly start_str end_str start_date_dt end_date_dt =
     (case (if isoweekday start_date_dt \<noteq> 7
            then map_sum id strftime
                   (timedelta_sub start_date_dt (nat (isoweekday start_date_dt mod 7)))
            else Inr start_str) of
        Inl e \<Rightarrow> Inl e
      | Inr new_start_date \<Rightarrow>
          (case (if isoweekday end_date_dt \<noteq> 6
                 then map_sum id strftime
                        (timedelta_add end_date_dt (nat ((13 - isoweekday end_date_dt) mod 7)))
                 else Inr end_str) of
             Inl e \<Rightarrow> Inl e
           | Inr new_end_date \<Rightarrow>
               (case date_range new_start_date new_end_date ''W'' of
                  Inl e \<Rightarrow> Inl e
                | Inr date_range_list \<Rightarrow> weekly_batches date_range_list)))"

text \<open>The loop of the \<^verbatim>\<open>monthly\<close> branch, and the branch.\<close>

fun monthly_batches :: "datetime list \<Rightarrow> exn + batch_dict list" where
  "monthly_batches [] = Inr []"
| "monthly_batches (date # dates) =
     (case monthrange_ndays (year date) (month date) of
        Inl e \<Rightarrow> Inl e
      | Inr n \<Rightarrow>
          (case datetime_new (year date) (month date) n of
             Inl e \<Rightarrow> Inl e
           | Inr batch_end_date_dt \<Rightarrow>
               (case monthly_batches dates of
                  Inl e \<Rightarrow> Inl e
                | Inr batch_date_list \<Rightarrow>
                    Inr (\<lparr>start_date = strftime date, end_date = strftime batch_end_date_dt\<rparr>
                         # batch_date_list))))"

definition split_monthly ::
  "string \<Rightarrow> string \<Rightarrow> datetime \<Rightarrow> datetime \<Rightarrow> exn + batch_dict list" where
  "split_monthly start_str end_str start_date_dt end_date_dt =
     (let new_start_date =
            (if day start_date_dt \<noteq> 1
             then strftime (Datetime (year start_date_dt) (month start_date_dt) 1)
             else start_str)
      in (case monthrange_ndays (year end_date_dt) (month end_date_dt) of
            Inl e \<Rightarrow> Inl e
          | Inr n \<Rightarrow>
              (case datetime_new (year end_date_dt) (month end_date_dt) n of
                 Inl e \<Rightarrow> Inl e
               | Inr end_date_month_last_day_dt \<Rightarrow>
                   (let new_end_date =
                          (if end_date_dt \<noteq> end_date_month_last_day_dt
                           then strftime end_date_month_last_day_dt else end_str)
                    in (case date_range new_start_date new_end_date ''MS'' of
                          Inl e \<Rightarrow> Inl e
                        | Inr date_range_list \<Rightarrow> monthly_batches date_range_list)))))"

text \<open>
  \<^verbatim>\<open>ga_api_split_request_date_batch_freq(start_date, end_date, batch_freq)\<close>.
  Both strings are parsed first. A frequency that is none of the three names matches no
  branch, and the empty list is returned.
\<close>

definition ga_api_split_request_date_batch_freq ::
  "string \<Rightarrow> string \<Rightarrow> string option \<Rightarrow> exn + batch_dict list" where
  "ga_api_split_request_date_batch_freq start_str end_str batch_freq =
     (case strptime start_str of
        Inl e \<Rightarrow> Inl e
      | Inr start_date_dt \<Rightarrow>
          (case strptime end_str of
             Inl e \<Rightarrow> Inl e
           | Inr end_date_dt \<Rightarrow>
               (case batch_freq of
                  None \<Rightarrow> Inr [\<lparr>start_date = strftime start_date_dt,
                                end_date = strftime end_date_dt\<rparr>]
                | Some f \<Rightarrow>
                    if f = ''daily'' then split_daily start_str end_str
                    else if f = ''weekly''
                    then split_weekly start_str end_str start_date_dt end_date_dt
                    else if f = ''monthly''
                    then split_monthly start_str end_str start_date_dt end_date_dt
                    else Inr [])))"

section \<open>Payloads and the worker's answers\<close>

datatype json =
    JNull
  | JBool bool
  | JNumber int
  | JString string
  | JArray "json list"
  | JObject "(string \<times> json) list"

text \<open>
  \<^verbatim>\<open>obj[key]\<close> for a string key on a decoded JSON value: a dictionary looks the key
  up, every other value raises TypeError. \<open>JObject kvs\<close> stands for the dictionary
  \<open>map_of kvs\<close>.
\<close>

fun subscript :: "json \<Rightarrow> string \<Rightarrow> exn + json" where
  "subscript (JObject kvs) k = (case map_of kvs k of Some v \<Rightarrow> Inr v | None \<Rightarrow> Inl (KeyError k))"
| "subscript _ k = Inl TypeError"

text \<open>
  An extraction template of the configuration file: its name, its optional batch
  frequency and its other entries. A payload is a template with the two dates of one
  batch added (\<^verbatim>\<open>payload.update(template)\<close>, then the two assignments).
\<close>

record template =
  name :: string
  batch_freq :: "string option"
  parameters :: "(string \<times> json) list"

record payload = template +
  dates :: batch_dict

text \<open>
  The text of a response is read by \<^verbatim>\<open>json.loads\<close> only, so it is represented by
  what \<^verbatim>\<open>json.loads\<close> makes of it: a decoded value, or no value for a text that is
  not JSON.
\<close>

datatype body = Malformed | Parsed json

text \<open>
  What one call of \<^verbatim>\<open>session.post\<close> comes to: a response, of which the code reads
  \<^verbatim>\<open>ok\<close>, \<^verbatim>\<open>status\<close> and, when \<^verbatim>\<open>ok\<close>, \<^verbatim>\<open>await response.text()\<close>; an
  \<^verbatim>\<open>aiohttp.ClientConnectionError\<close>; or any other exception. Reading the text can
  itself fail in the last two ways.
\<close>

datatype text_outcome = Text body | TextConnectionError | TextError exn

datatype post_outcome =
    Response bool int text_outcome
  | ClientConnectionError
  | PostError exn

text \<open>
  What \<^verbatim>\<open>aiohttp_request_to_function\<close> returns: the response text, or the dictionary
  \<^verbatim>\<open>{'status': "Failed", 'message': ..., 'request_data': payload, 'response_status': ...}\<close>.
  \<open>NoneResult\<close> is Python's \<^verbatim>\<open>None\<close>, which \<^verbatim>\<open>async_requests\<close> tests for.
\<close>

datatype result =
    ResponseText body
  | FailureDict string payload int
  | NoneResult

section \<open>One job: \<^verbatim>\<open>aiohttp_request_to_function\<close>\<close>

text \<open>
  The coroutine is a state machine that the event loop resumes with the outcome of the
  request it awaits. Its state holds the local variables (\<open>response\<close> is the status of
  the response object last bound to \<^verbatim>\<open>response\<close>, if any), the address of the
  \<^verbatim>\<open>AsyncLimiter\<close> it created, and two counters that no Python variable holds: the
  calls of \<^verbatim>\<open>session.post\<close> made and the seconds slept.
\<close>

datatype task_state = Running | Done result | Failed exn | Cancelled

record task =
  job :: payload
  state :: task_state
  rate_limit :: nat
  response_status :: bool
  retries :: nat
  response :: "int option"
  posts :: nat
  slept :: nat

text \<open>A payload to run the dispatcher on: one unbatched template for one day.\<close>

definition sample_payload :: payload where
  "sample_payload =
     \<lparr>name = ''sessions'', batch_freq = None, parameters = [],
      dates = \<lparr>start_date = ''2023-01-01'', end_date = ''2023-01-01''\<rparr>\<rparr>"

definition retry :: nat where
  "retry = 3"

text \<open>
  The fresh coroutine: \<^verbatim>\<open>response_status = False\<close>, \<^verbatim>\<open>retries = 0\<close>, and
  \<^verbatim>\<open>response\<close> not bound yet.
\<close>

definition new_task :: "payload \<Rightarrow> nat \<Rightarrow> task" where
  "new_task p a =
     \<lparr>job = p, state = Running, rate_limit = a, response_status = False, retries = 0,
      response = None, posts = 0, slept = 0\<rparr>"

text \<open>
  The retry of both failure branches: \<^verbatim>\<open>await asyncio.sleep(1)\<close>, then
  \<^verbatim>\<open>retries += 1\<close>.
\<close>

definition sleep_and_retry :: "task \<Rightarrow> task" where
  "sleep_and_retry t = t\<lparr>slept := slept t + 1, retries := retries t + 1\<rparr>"

text \<open>
  The code after the loop: the failure dictionary is built, and
  \<^verbatim>\<open>response.status\<close> is read, which raises UnboundLocalError when no call of
  \<^verbatim>\<open>session.post\<close> has returned a response.
\<close>

definition after_loop :: "task \<Rightarrow> task" where
  "after_loop t =
     (case response t of
        None \<Rightarrow> t\<lparr>state := Failed UnboundLocalError\<rparr>
      | Some st \<Rightarrow>
          t\<lparr>state := Done (FailureDict
                 (''Unable to load data after '' @ str_nat (retries t) @ '' retries'')
                 (job t) st)\<rparr>)"

text \<open>The loop head: \<^verbatim>\<open>while response_status is False and retries < retry\<close>.\<close>

definition loop_head :: "task \<Rightarrow> task" where
  "loop_head t = (if \<not> response_status t \<and> retries t < retry then t else after_loop t)"

text \<open>
  One pass through the loop body, for the outcome \<open>out\<close> of its call of
  \<^verbatim>\<open>session.post\<close>, followed by the loop head. An exception other than
  \<^verbatim>\<open>ClientConnectionError\<close> leaves the coroutine.
\<close>

definition loop_body :: "task \<Rightarrow> post_outcome \<Rightarrow> task" where
  "loop_body t0 out =
     (let t = t0\<lparr>posts := posts t0 + 1\<rparr> in
      case out of
        PostError e \<Rightarrow> t\<lparr>state := Failed e\<rparr>
      | ClientConnectionError \<Rightarrow> loop_head (sleep_and_retry t)
      | Response ok st rt \<Rightarrow>
          (let t' = t\<lparr>response := Some st, response_status := ok\<rparr> in
           if ok then
             (case rt of
                Text b \<Rightarrow> t'\<lparr>state := Done (ResponseText b)\<rparr>
              | TextConnectionError \<Rightarrow> loop_head (sleep_and_retry t')
              | TextError e \<Rightarrow> t'\<lparr>state := Failed e\<rparr>)
           else loop_head (sleep_and_retry t')))"

text \<open>Resuming a coroutine; one that has finished is not resumed.\<close>

definition resume :: "task \<Rightarrow> post_outcome \<Rightarrow> task" where
  "resume t out = (if state t = Running then loop_body t out else t)"

text \<open>
  \<^verbatim>\<open>aiohttp_request_to_function(session, payload)\<close> run on its own, against the
  outcomes of its successive requests. The task is still \<open>Running\<close> at the end when
  the outcomes given are fewer than the requests it makes.
\<close>

definition aiohttp_request_to_function :: "payload \<Rightarrow> post_outcome list \<Rightarrow> task" where
  "aiohttp_request_to_function p outs = foldl resume (new_task p 0) outs"

section \<open>The rate limiter\<close>

text \<open>
  \<^verbatim>\<open>AsyncLimiter(max_rate, time_period)\<close> at one instant: \<^verbatim>\<open>acquire()\<close> is
  granted while the level is below \<^verbatim>\<open>max_rate\<close>, and has to wait otherwise. The
  draining of the level with time is not modelled.
\<close>

record limiter =
  max_rate :: nat
  time_period :: nat
  level :: nat

definition AsyncLimiter :: "nat \<Rightarrow> nat \<Rightarrow> limiter" where
  "AsyncLimiter r p = \<lparr>max_rate = r, time_period = p, level = 0\<rparr>"

definition acquire :: "limiter \<Rightarrow> limiter option" where
  "acquire l = (if level l + 1 \<le> max_rate l then Some (l\<lparr>level := level l + 1\<rparr>) else None)"

text \<open>
  For comparison with what the code does: \<open>n\<close> jobs that acquire one and the same
  limiter, as the specification has it. The result is \<open>None\<close> when one of them has to
  wait.
\<close>

fun acquire_shared :: "nat \<Rightarrow> limiter \<Rightarrow> limiter option" where
  "acquire_shared 0 l = Some l"
| "acquire_shared (Suc n) l =
     (case acquire l of None \<Rightarrow> None | Some l' \<Rightarrow> acquire_shared n l')"

section \<open>The dispatcher: \<^verbatim>\<open>async_requests\<close>\<close>

text \<open>
  The state of the task group: the tasks, one per payload and in the order of the
  payload list, the limiter objects that exist, and \<^verbatim>\<open>task_results\<close>, the tasks in
  the order in which they finished (the done callback appends each of them).
\<close>

record group =
  tasks :: "task list"
  limiters :: "limiter list"
  task_results :: "nat list"

text \<open>
  \<^verbatim>\<open>tg.create_task(aiohttp_request_to_function(session, payload))\<close>: the coroutine
  starts with \<^verbatim>\<open>rate_limit = AsyncLimiter(600, 60)\<close>, a new object, and enters
  \<^verbatim>\<open>async with rate_limit\<close>. A task that is not granted the limiter would be
  left waiting; that state is \<open>None\<close>.
\<close>

definition create_task :: "group \<Rightarrow> payload \<Rightarrow> group option" where
  "create_task g p =
     (case acquire (AsyncLimiter 600 60) of
        None \<Rightarrow> None
      | Some l \<Rightarrow>
          Some (g\<lparr>tasks := tasks g @ [new_task p (length (limiters g))],
                 limiters := limiters g @ [l]\<rparr>))"

fun create_tasks :: "group \<Rightarrow> payload list \<Rightarrow> group option" where
  "create_tasks g [] = Some g"
| "create_tasks g (p # ps) =
     (case create_task g p of None \<Rightarrow> None | Some g' \<Rightarrow> create_tasks g' ps)"

text \<open>
  A \<^verbatim>\<open>TaskGroup\<close> that sees one of its tasks raise cancels the tasks that have not
  finished. The coroutine catches no \<^verbatim>\<open>CancelledError\<close>, so each of them ends
  cancelled; their done callbacks run in the order of the task list.
\<close>

definition cancel :: "task \<Rightarrow> task" where
  "cancel t = (if state t = Running then t\<lparr>state := Cancelled\<rparr> else t)"

definition abort :: "group \<Rightarrow> group" where
  "abort g =
     g\<lparr>tasks := map cancel (tasks g),
       task_results := task_results g @ filter (\<lambda>i. state (tasks g ! i) = Running)
                                             [0..<length (tasks g)]\<rparr>"

text \<open>
  One step of the event loop: the request of task \<open>i\<close> comes to \<open>out\<close> and the task
  runs on to its next request or to its end.
\<close>

definition deliver :: "group \<Rightarrow> nat \<times> post_outcome \<Rightarrow> group" where
  "deliver g ev =
     (case ev of (i, out) \<Rightarrow>
        if i < length (tasks g) \<and> state (tasks g ! i) = Running then
          (let t = resume (tasks g ! i) out;
               g' = g\<lparr>tasks := (tasks g)[i := t]\<rparr>
           in case state t of
                Running \<Rightarrow> g'
              | Failed e \<Rightarrow> abort (g'\<lparr>task_results := task_results g' @ [i]\<rparr>)
              | _ \<Rightarrow> g'\<lparr>task_results := task_results g' @ [i]\<rparr>)
        else g)"

text \<open>
  The group of \<^verbatim>\<open>async_requests\<close>: the tasks are created for the payloads in their
  order, then the event loop runs through the schedule, the outcomes of the requests in
  the order in which they come.
\<close>

definition empty_group :: group where
  "empty_group = \<lparr>tasks = [], limiters = [], task_results = []\<rparr>"

definition run_group :: "payload list \<Rightarrow> (nat \<times> post_outcome) list \<Rightarrow> group option" where
  "run_group payload_list schedule =
     map_option (\<lambda>g. foldl deliver g schedule) (create_tasks empty_group payload_list)"

text \<open>
  \<^verbatim>\<open>json.loads(result)\<close> on what a task returned: only a text can be decoded, and
  only when it is JSON.
\<close>

fun json_loads :: "result \<Rightarrow> exn + json" where
  "json_loads (ResponseText (Parsed j)) = Inr j"
| "json_loads (ResponseText Malformed) = Inl JSONDecodeError"
| "json_loads (FailureDict m p st) = Inl TypeError"
| "json_loads NoneResult = Inl TypeError"

text \<open>
  The loop over \<^verbatim>\<open>task_results\<close>, with the two lists
  \<^verbatim>\<open>successful_data_loads\<close> and \<^verbatim>\<open>failed_data_loads\<close>. An exception leaves the
  loop and the function.
\<close>

fun tally :: "result list \<Rightarrow> result list \<times> json list \<Rightarrow> exn + result list \<times> json list" where
  "tally [] acc = Inr acc"
| "tally (r # rs) (successful_data_loads, failed_data_loads) =
     (let failed = (if r = NoneResult then failed_data_loads @ [JNull] else failed_data_loads)
      in case json_loads r of Inl e \<Rightarrow> Inl e
         | Inr result_json \<Rightarrow>
             (case subscript result_json ''status'' of Inl e \<Rightarrow> Inl e
              | Inr status \<Rightarrow>
                  if status = JString ''Success''
                  then tally rs (successful_data_loads @ [r], failed)
                  else tally rs (successful_data_loads, failed @ [result_json])))"

record summary =
  data_load_attempts :: nat
  data_load_sucesses :: nat
  data_load_failures :: nat

fun has_raised :: "task_state \<Rightarrow> bool" where
  "has_raised (Failed e) = True"
| "has_raised _ = False"

definition the_result :: "task \<Rightarrow> result" where
  "the_result t = (case state t of Done r \<Rightarrow> r | _ \<Rightarrow> NoneResult)"

text \<open>
  \<^verbatim>\<open>async_requests(payload_list)\<close>, for the order in which the requests of the
  tasks come to their outcomes (any order: the connection pool of the session, which
  lets eight requests be in flight at a time, is inside aiohttp and not modelled). It returns once every task has finished: \<open>None\<close>
  stands for a dispatcher that is still waiting. When a task has raised, the task group
  raises an \<^verbatim>\<open>ExceptionGroup\<close>, which is caught and printed, and both lists are still
  empty; otherwise the results are tallied, and an exception of the tally is not caught.
\<close>

definition async_requests ::
  "payload list \<Rightarrow> (nat \<times> post_outcome) list \<Rightarrow> (exn + summary) option" where
  "async_requests payload_list schedule =
     (case run_group payload_list schedule of
        None \<Rightarrow> None
      | Some g \<Rightarrow>
          if \<exists>t \<in> set (tasks g). state t = Running then None
          else if \<exists>t \<in> set (tasks g). has_raised (state t) then
            Some (Inr \<lparr>data_load_attempts = length payload_list,
                       data_load_sucesses = 0, data_load_failures = 0\<rparr>)
          else
            (case tally (map (\<lambda>i. the_result (tasks g ! i)) (task_results g)) ([], []) of
               Inl e \<Rightarrow> Some (Inl e)
             | Inr (successful_data_loads, failed_data_loads) \<Rightarrow>
                 Some (Inr \<lparr>data_load_attempts = length payload_list,
                            data_load_sucesses = length successful_data_loads,
                            data_load_failures = length failed_data_loads\<rparr>)))"

section \<open>The entry point: \<^verbatim>\<open>prep_request_batches\<close>\<close>

text \<open>
  The model starts where the request has been read and the configuration file loaded.
  That part of the function is input and output with its collaborators, and it is
  represented by what it has established: the request data, the two dates of the
  request, the two dictionaries of the request that choose templates (either may be
  absent), the two template lists of the configuration file and the general request
  configuration that every template is updated with.
\<close>

text \<open>
  Of such a dictionary the code reads \<^verbatim>\<open>.get('load_all')\<close>, here \<open>JNull\<close> for
  Python's \<^verbatim>\<open>None\<close>, and \<^verbatim>\<open>.get('include')\<close>, a list of names or \<^verbatim>\<open>None\<close>.
\<close>

record criteria =
  load_all :: json
  include_names :: "string list option"

record prepared =
  request_data :: json
  extract_start_date :: string
  extract_end_date :: string
  extract_standard_extraction_templates_dict :: "criteria option"
  extract_custom_extraction_templates_dict :: "criteria option"
  standard_extraction_templates :: "template list"
  custom_extraction_templates :: "template list"
  general_request_configs :: "(string \<times> json) list"

text \<open>
  The choice of templates, the same for the standard and the custom ones: all templates
  of the configuration when \<^verbatim>\<open>load_all\<close> is \<^verbatim>\<open>True\<close>, else those whose name is in
  \<^verbatim>\<open>include\<close>, and none without the dictionary or without \<^verbatim>\<open>include\<close>.
\<close>

definition select_templates :: "criteria option \<Rightarrow> template list \<Rightarrow> template list" where
  "select_templates dict config_templates =
     (case dict of
        None \<Rightarrow> []
      | Some c \<Rightarrow>
          if load_all c = JBool True then config_templates
          else (case include_names c of
                  None \<Rightarrow> []
                | Some names \<Rightarrow> filter (\<lambda>t. name t \<in> set names) config_templates))"

text \<open>
  \<^verbatim>\<open>template.update(general_request_configs)\<close> and the assignment of
  \<^verbatim>\<open>template['template_type']\<close>; neither touches the name or the batch frequency.
\<close>

definition update_template :: "(string \<times> json) list \<Rightarrow> string \<Rightarrow> template \<Rightarrow> template" where
  "update_template general template_type t =
     t\<lparr>parameters := (''template_type'', JString template_type) # general @ parameters t\<rparr>"

text \<open>
  The first loop over the templates: each template gets its
  \<^verbatim>\<open>date_range_batches\<close> from the planner. The result comes with the names of the
  templates for which the planner was called; an exception of the planner ends the loop.
\<close>

fun plan_batches ::
  "string \<Rightarrow> string \<Rightarrow> template list
     \<Rightarrow> string list \<times> (exn + (template \<times> batch_dict list) list)" where
  "plan_batches s e [] = ([], Inr [])"
| "plan_batches s e (t # ts) =
     (case ga_api_split_request_date_batch_freq s e (batch_freq t) of
        Inl x \<Rightarrow> ([name t], Inl x)
      | Inr batch_date_list \<Rightarrow>
          (case plan_batches s e ts of
             (names, Inl x) \<Rightarrow> (name t # names, Inl x)
           | (names, Inr rest) \<Rightarrow> (name t # names, Inr ((t, batch_date_list) # rest))))"

text \<open>The second loop: one payload per template and date range.\<close>

definition make_payload :: "template \<Rightarrow> batch_dict \<Rightarrow> payload" where
  "make_payload t b =
     \<lparr>name = name t, batch_freq = batch_freq t, parameters = parameters t, dates = b\<rparr>"

definition payloads :: "(template \<times> batch_dict list) list \<Rightarrow> payload list" where
  "payloads batches = concat (map (\<lambda>(t, bs). map (make_payload t) bs) batches)"

text \<open>
  A run of the entry point: what it returns (\<open>None\<close> while the dispatcher has not
  returned), the templates for which it called the planner, and the payload list it
  handed to the dispatcher, if it did.
\<close>

record run =
  returned :: "(exn + json) option"
  planned :: "string list"
  dispatched :: "payload list option"

definition no_templates_message :: string where
  "no_templates_message =
     ''The request data did not include any templates to load or the requested templates are not valid templates''"

definition results_dict :: "summary \<Rightarrow> json" where
  "results_dict r =
     JObject [(''data_load_attempts'', JNumber (int (data_load_attempts r))),
              (''data_load_sucesses'', JNumber (int (data_load_sucesses r))),
              (''data_load_failures'', JNumber (int (data_load_failures r))),
              (''status'', JString ''Success!'')]"

definition prep_request_batches :: "prepared \<Rightarrow> (nat \<times> post_outcome) list \<Rightarrow> run" where
  "prep_request_batches rq schedule =
     (let standard_extraction_template_list =
            map (update_template (general_request_configs rq) ''standard_templates'')
              (select_templates (extract_standard_extraction_templates_dict rq)
                 (standard_extraction_templates rq));
          custom_extraction_template_list =
            map (update_template (general_request_configs rq) ''custom_templates'')
              (select_templates (extract_custom_extraction_templates_dict rq)
                 (custom_extraction_templates rq));
          combined_template_list =
            standard_extraction_template_list @ custom_extraction_template_list
      in if length combined_template_list = 0 then
           \<lparr>returned = Some (Inr (JObject [(''status'', JString ''Failed''),
                                          (''message'', JString no_templates_message),
                                          (''request_data'', request_data rq)])),
            planned = [], dispatched = None\<rparr>
         else
           (case plan_batches (extract_start_date rq) (extract_end_date rq)
                   combined_template_list of
              (names, Inl x) \<Rightarrow> \<lparr>returned = Some (Inl x), planned = names, dispatched = None\<rparr>
            | (names, Inr batches) \<Rightarrow>
                (let payload_list = payloads batches in
                 \<lparr>returned =
                    (case async_requests payload_list schedule of
                       None \<Rightarrow> None
                     | Some (Inl x) \<Rightarrow> Some (Inl x)
                     | Some (Inr results) \<Rightarrow> Some (Inr (results_dict results))),
                  planned = names, dispatched = Some payload_list\<rparr>)))"

section \<open>What the specification says of a job's answer\<close>

text \<open>
  The specification's words for the answer of a finished job: its response body parses
  as a JSON object with a \<^verbatim>\<open>status\<close> field (\<open>has_status\<close>), and that field
  equals \<^verbatim>\<open>"Success"\<close> (\<open>says_success\<close>).
\<close>

fun has_status :: "task_state \<Rightarrow> bool" where
  "has_status (Done (ResponseText (Parsed (JObject kvs)))) = (map_of kvs ''status'' \<noteq> None)"
| "has_status _ = False"

fun says_success :: "task_state \<Rightarrow> bool" where
  "says_success (Done (ResponseText (Parsed (JObject kvs)))) =
     (map_of kvs ''status'' = Some (JString ''Success''))"
| "says_success _ = False"

fun is_done :: "task_state \<Rightarrow> bool" where
  "is_done (Done r) = True"
| "is_done _ = False"

section \<open>Whole months\<close>

text \<open>The last day of the month of a date, for stating what a monthly range is.\<close>

definition month_end :: "datetime \<Rightarrow> datetime" where
  "month_end d = Datetime (year d) (month d) (days_in_month (year d) (month d))"

section \<open>Invariants\<close>

text \<open>
  While the coroutine is in its loop, every call of \<^verbatim>\<open>session.post\<close> so far has been
  followed by a sleep of one second and has counted as one retry, and fewer than three
  have been made; at any time at most three have been made.
\<close>

definition task_inv :: "task \<Rightarrow> bool" where
  "task_inv t \<longleftrightarrow>
     posts t \<le> retry \<and> slept t = retries t \<and>
     (state t = Running \<longrightarrow> retries t = posts t \<and> posts t < retry \<and> \<not> response_status t)"

text \<open>
  The invariant of the event loop: \<^verbatim>\<open>task_results\<close> lists the finished tasks, each
  once; and once a task has raised, no task is running any more.
\<close>

definition group_inv :: "group \<Rightarrow> bool" where
  "group_inv g \<longleftrightarrow>
     distinct (task_results g)
     \<and> set (task_results g) = {i. i < length (tasks g) \<and> state (tasks g ! i) \<noteq> Running}
     \<and> ((\<exists>t \<in> set (tasks g). has_raised (state t))
          \<longrightarrow> (\<forall>t \<in> set (tasks g). state t \<noteq> Running))"

lemma div_pred:
  fixes y k :: int
  assumes "0 < k"
  shows "y div k = (y - 1) div k + (if y mod k = 0 then 1 else 0)"
proof (cases "y mod k = 0")
  case True
  have "y - 1 = k * (y div k - 1) + (k - 1)"
    using True by (simp add: algebra_simps mod_eq_0_iff_dvd)
  then have "(y - 1) div k = y div k - 1"
    by (rule int_div_pos_eq) (use assms in simp_all)
  with True show ?thesis by simp
next
  case False
  have "0 \<le> y mod k" "y mod k < k" using assms by simp_all
  with False have r: "0 \<le> y mod k - 1" "y mod k - 1 < k" by simp_all
  have "y - 1 = k * (y div k) + (y mod k - 1)" by simp
  then have "(y - 1) div k = y div k"
    using r by (rule int_div_pos_eq)
  with False show ?thesis by simp
qed

lemma leap_step_arith:
  fixes y p4 p100 p400 q4 q100 q400 :: int
  assumes "q4 = p4 + (if m4 then 1 else 0)" "q100 = p100 + (if m100 then 1 else 0)"
    "q400 = p400 + (if m400 then 1 else 0)" "m100 \<longrightarrow> m4" "m400 \<longrightarrow> m100"
  shows "y * 365 + q4 - q100 + q400 =
    (y - 1) * 365 + p4 - p100 + p400 + 365 + (if m4 \<and> (\<not> m100 \<or> m400) then 1 else 0)"
  using assms by (cases m4; cases m100; cases m400) (simp_all add: algebra_simps)

lemma days_before_year_Suc:
  "days_before_year (y + 1) = days_before_year y + 365 + (if is_leap y then 1 else 0)"
proof -
  have a: "y div 4 = (y - 1) div 4 + (if y mod 4 = 0 then 1 else 0)"
    by (rule div_pred) simp
  have b: "y div 100 = (y - 1) div 100 + (if y mod 100 = 0 then 1 else 0)"
    by (rule div_pred) simp
  have c: "y div 400 = (y - 1) div 400 + (if y mod 400 = 0 then 1 else 0)"
    by (rule div_pred) simp
  have d: "y mod 100 = 0 \<longrightarrow> y mod 4 = 0"
  proof
    assume "y mod 100 = 0"
    then show "y mod 4 = 0" using mod_mod_cancel [of 4 100 y] by simp
  qed
  have e: "y mod 400 = 0 \<longrightarrow> y mod 100 = 0"
  proof
    assume "y mod 400 = 0"
    then show "y mod 100 = 0" using mod_mod_cancel [of 100 400 y] by simp
  qed
  have "days_before_year (y + 1) = y * 365 + y div 4 - y div 100 + y div 400"
    by (simp add: days_before_year_def)
  also note leap_step_arith [OF a b c d e]
  finally show ?thesis
    by (simp only: days_before_year_def is_leap_def)
qed

lemma month_cases:
  fixes m :: int
  assumes "1 \<le> m" "m \<le> 12"
  obtains "m = 1" | "m = 2" | "m = 3" | "m = 4" | "m = 5" | "m = 6"
    | "m = 7" | "m = 8" | "m = 9" | "m = 10" | "m = 11" | "m = 12"
proof -
  from assms have "m = 1 \<or> m = 2 \<or> m = 3 \<or> m = 4 \<or> m = 5 \<or> m = 6
      \<or> m = 7 \<or> m = 8 \<or> m = 9 \<or> m = 10 \<or> m = 11 \<or> m = 12"
    by arith
  then show thesis using that by blast
qed

lemma days_before_month_Suc:
  assumes "1 \<le> m" "m < 12"
  shows "days_before_month y (m + 1) = days_before_month y m + days_in_month y m"
proof -
  from assms have "1 \<le> m" "m \<le> 12" by simp_all
  then show ?thesis
    using assms(2) by (cases m rule: month_cases)
      (simp_all add: days_before_month_def days_in_month_def mdays_def)
qed

lemma toordinal_next_day:
  assumes "calendar_date d"
  shows "toordinal (next_day d) = toordinal d + 1"
proof -
  obtain y m k where d: "d = Datetime y m k" by (cases d)
  from assms d have m: "1 \<le> m" "m \<le> 12" and k: "1 \<le> k" "k \<le> days_in_month y m"
    by (simp_all add: calendar_date_def)
  show ?thesis
  proof (cases "k < days_in_month y m")
    case True
    then show ?thesis by (simp add: d next_day_def toordinal_def)
  next
    case last: False
    with k have keq: "k = days_in_month y m" by simp
    show ?thesis
    proof (cases "m < 12")
      case True
      with m last show ?thesis
        by (simp add: d next_day_def toordinal_def days_before_month_Suc keq)
    next
      case False
      with m have "m = 12" by simp
      with last keq show ?thesis
        by (simp add: d next_day_def toordinal_def days_before_year_Suc
            days_before_month_def days_in_month_def mdays_def)
    qed
  qed
qed

lemma calendar_date_next_day:
  assumes "calendar_date d"
  shows "calendar_date (next_day d)"
proof -
  obtain y m k where d: "d = Datetime y m k" by (cases d)
  from assms d have m: "1 \<le> m" "m \<le> 12" and k: "1 \<le> k" "k \<le> days_in_month y m"
    by (simp_all add: calendar_date_def)
  have pos: "1 \<le> days_in_month y' m'" for y' m'
    by (simp add: days_in_month_def mdays_def)
  show ?thesis
    using m k pos by (auto simp: d next_day_def calendar_date_def)
qed


lemma next_day_prev_day:
  assumes "calendar_date d"
  shows "next_day (prev_day d) = d"
proof -
  obtain y m k where d: "d = Datetime y m k" by (cases d)
  from assms d have m: "1 \<le> m" "m \<le> 12" and k: "1 \<le> k" "k \<le> days_in_month y m"
    by (simp_all add: calendar_date_def)
  have dec: "days_in_month y' 12 = 31" for y'
    by (simp add: days_in_month_def mdays_def)
  show ?thesis
    using m k by (auto simp: d next_day_def prev_day_def dec)
qed

lemma calendar_date_prev_day:
  assumes "calendar_date d"
  shows "calendar_date (prev_day d)"
proof -
  obtain y m k where d: "d = Datetime y m k" by (cases d)
  from assms d have m: "1 \<le> m" "m \<le> 12" and k: "1 \<le> k" "k \<le> days_in_month y m"
    by (simp_all add: calendar_date_def)
  have pos: "1 \<le> days_in_month y' m'" for y' m'
    by (simp add: days_in_month_def mdays_def)
  have dec: "days_in_month y' 12 = 31" for y'
    by (simp add: days_in_month_def mdays_def)
  show ?thesis
    using m k pos by (auto simp: d prev_day_def calendar_date_def dec)
qed

lemma toordinal_prev_day:
  assumes "calendar_date d"
  shows "toordinal (prev_day d) = toordinal d - 1"
  using toordinal_next_day [OF calendar_date_prev_day [OF assms]] next_day_prev_day [OF assms]
  by simp

lemma plus_days_add: "plus_days (plus_days d a) b = plus_days d (a + b)"
  by (induction b) simp_all

lemma funpow_next_day: "(next_day ^^ k) d = plus_days d k"
  by (induction k) simp_all

lemma plus_days_calendar:
  assumes "calendar_date d"
  shows "calendar_date (plus_days d k) \<and> toordinal (plus_days d k) = toordinal d + int k"
proof (induction k)
  case 0
  from assms show ?case by simp
next
  case (Suc k)
  then show ?case
    by (simp add: calendar_date_next_day toordinal_next_day)
qed

lemma minus_days_calendar:
  assumes "calendar_date d"
  shows "calendar_date (minus_days d k) \<and> toordinal (minus_days d k) = toordinal d - int k"
proof (induction k)
  case 0
  from assms show ?case by simp
next
  case (Suc k)
  then show ?case
    by (simp add: calendar_date_prev_day toordinal_prev_day)
qed

lemma days_before_year_mono_nat:
  "days_before_year y + 365 * int n \<le> days_before_year (y + int n)"
proof (induction n)
  case 0
  show ?case by simp
next
  case (Suc n)
  have "y + int (Suc n) = (y + int n) + 1" by simp
  then have "days_before_year (y + int (Suc n)) = days_before_year ((y + int n) + 1)"
    by (rule arg_cong)
  also have "\<dots> \<ge> days_before_year (y + int n) + 365"
    by (simp add: days_before_year_Suc)
  finally show ?case using Suc by simp
qed

lemma days_before_year_mono:
  assumes "y \<le> z"
  shows "days_before_year y \<le> days_before_year z"
proof -
  from assms have z: "y + int (nat (z - y)) = z" by simp
  have "days_before_year y \<le> days_before_year y + 365 * int (nat (z - y))" by simp
  also have "\<dots> \<le> days_before_year (y + int (nat (z - y)))"
    by (rule days_before_year_mono_nat)
  finally show ?thesis by (simp only: z)
qed

lemma day_of_year_bounds:
  assumes "calendar_date d"
  shows "1 \<le> days_before_month (year d) (month d) + day d"
    and "days_before_month (year d) (month d) + day d
           \<le> 365 + (if is_leap (year d) then 1 else 0)"
proof -
  obtain y m k where d: "d = Datetime y m k" by (cases d)
  from assms d have m: "1 \<le> m" "m \<le> 12" and k: "1 \<le> k" "k \<le> days_in_month y m"
    by (simp_all add: calendar_date_def)
  from m k show "1 \<le> days_before_month (year d) (month d) + day d"
    by (cases m rule: month_cases) (simp_all add: d days_before_month_def)
  from m k show "days_before_month (year d) (month d) + day d
           \<le> 365 + (if is_leap (year d) then 1 else 0)"
    by (cases m rule: month_cases)
      (simp_all add: d days_before_month_def days_in_month_def mdays_def)
qed

lemma toordinal_year_bounds:
  assumes "calendar_date d"
  shows "days_before_year (year d) < toordinal d"
    and "toordinal d \<le> days_before_year (year d + 1)"
  using day_of_year_bounds [OF assms]
  by (simp_all add: toordinal_def days_before_year_Suc)

lemma toordinal_year_less:
  assumes "calendar_date a" "calendar_date b" "year a < year b"
  shows "toordinal a < toordinal b"
proof -
  have "toordinal a \<le> days_before_year (year a + 1)"
    using assms(1) by (rule toordinal_year_bounds)
  also have "\<dots> \<le> days_before_year (year b)"
    using assms(3) by (intro days_before_year_mono) simp
  also have "\<dots> < toordinal b"
    using assms(2) by (rule toordinal_year_bounds)
  finally show ?thesis .
qed

lemma year_in_range:
  assumes "calendar_date d" "1 \<le> toordinal d" "toordinal d \<le> max_ordinal"
  shows "1 \<le> year d \<and> year d \<le> 9999"
proof -
  have one: "days_before_year 1 = 0" and top: "days_before_year 10000 = max_ordinal"
    by (simp_all add: days_before_year_def max_ordinal_def toordinal_def days_before_month_def
        is_leap_def)
  have "\<not> year d \<le> 0"
  proof
    assume "year d \<le> 0"
    then have "days_before_year (year d + 1) \<le> days_before_year 1"
      by (intro days_before_year_mono) simp
    with toordinal_year_bounds(2) [OF assms(1)] one assms(2) show False by simp
  qed
  moreover have "\<not> 10000 \<le> year d"
  proof
    assume "10000 \<le> year d"
    then have "days_before_year 10000 \<le> days_before_year (year d)"
      by (rule days_before_year_mono)
    with toordinal_year_bounds(1) [OF assms(1)] top assms(3) show False by simp
  qed
  ultimately show ?thesis by simp
qed

lemma days_before_month_less:
  assumes "1 \<le> m" "m < m'" "m' \<le> 12"
  shows "days_before_month y m + days_in_month y m \<le> days_before_month y m'"
proof -
  from assms have m: "1 \<le> m" "m \<le> 12" and m': "1 \<le> m'" "m' \<le> 12" by simp_all
  from m show ?thesis
  proof (cases m rule: month_cases)
  qed (use m' assms(2) in \<open>cases m' rule: month_cases;
        simp add: days_before_month_def days_in_month_def mdays_def\<close>)+
qed

lemma toordinal_inj:
  assumes "calendar_date a" "calendar_date b" "toordinal a = toordinal b"
  shows "a = b"
proof -
  have y: "year a = year b"
    using toordinal_year_less [OF assms(1,2)] toordinal_year_less [OF assms(2,1)] assms(3)
    by (cases "year a < year b"; cases "year b < year a") simp_all
  have doy: "days_before_month (year a) (month a) + day a
      = days_before_month (year a) (month b) + day b"
    using assms(3) y by (simp add: toordinal_def)
  from assms(1,2) y have a: "1 \<le> month a" "month a \<le> 12" "1 \<le> day a"
      "day a \<le> days_in_month (year a) (month a)"
    and b: "1 \<le> month b" "month b \<le> 12" "1 \<le> day b"
      "day b \<le> days_in_month (year a) (month b)"
    by (simp_all add: calendar_date_def)
  have "\<not> month a < month b"
    using days_before_month_less [of "month a" "month b" "year a"] a b doy by auto
  moreover have "\<not> month b < month a"
    using days_before_month_less [of "month b" "month a" "year a"] a b doy by auto
  ultimately have m: "month a = month b" by simp
  with doy have "day a = day b" by simp
  with y m show ?thesis by (simp add: datetime.expand)
qed

lemma digit_cases:
  fixes n :: int
  assumes "0 \<le> n" "n \<le> 9"
  obtains "n = 0" | "n = 1" | "n = 2" | "n = 3" | "n = 4" | "n = 5"
    | "n = 6" | "n = 7" | "n = 8" | "n = 9"
proof -
  from assms have "n = 0 \<or> n = 1 \<or> n = 2 \<or> n = 3 \<or> n = 4 \<or> n = 5
      \<or> n = 6 \<or> n = 7 \<or> n = 8 \<or> n = 9"
    by arith
  then show thesis using that by blast
qed

lemma digit_val_digit_char:
  assumes "0 \<le> n" "n \<le> 9"
  shows "digit_val (digit_char n) = Some n"
  using assms by (cases n rule: digit_cases) (simp_all add: digit_val_def digit_char_def)

lemma digit_char_not_sep:
  assumes "0 \<le> n" "n \<le> 9"
  shows "digit_char n \<noteq> CHR ''-''" and "digit_char n \<noteq> CHR '' ''"
  using assms by (cases n rule: digit_cases; simp add: digit_char_def)+

lemma mod10_digit: "0 \<le> (n::int) mod 10 \<and> n mod 10 \<le> 9"
  by simp

lemma year_field_pad4:
  assumes "0 \<le> y" "y \<le> 9999"
  shows "year_field (pad4 y) = Some y"
proof -
  define a where "a = y div 10"
  define b where "b = a div 10"
  define c where "c = b div 10"
  have b': "y div 100 = b" and c': "y div 1000 = c"
    by (simp_all add: a_def b_def c_def zdiv_zmult2_eq)
  have ya: "y = 10 * a + y mod 10" and ab: "a = 10 * b + a mod 10"
    and bc: "b = 10 * c + b mod 10"
    by (simp_all add: a_def b_def c_def)
  have "c \<le> 9" using assms(2) unfolding c'[symmetric] by simp
  moreover have "0 \<le> c" using assms(1) unfolding c'[symmetric] by simp
  ultimately have cm: "c mod 10 = c" by simp
  have a': "y div 10 = a" by (simp add: a_def)
  have sum: "1000 * c + 100 * (b mod 10) + 10 * (a mod 10) + y mod 10 = y"
    using ya ab bc by simp
  show ?thesis
    by (simp add: pad4_def a' b' c' cm digit_val_digit_char \<open>0 \<le> c\<close> \<open>c \<le> 9\<close> sum)
qed

lemma month_field_pad2:
  assumes "1 \<le> m" "m \<le> 12"
  shows "month_field (pad2 m) = Some m"
  using assms
  by (cases m rule: month_cases) (simp_all add: pad2_def digit_val_def digit_char_def)

lemma day_field_pad2:
  assumes "1 \<le> k" "k \<le> 31"
  shows "day_field (pad2 k) = Some k"
proof -
  define x where "x = k div 10"
  define y where "y = k mod 10"
  have k: "k = 10 * x + y" by (simp add: x_def y_def)
  have y: "0 \<le> y" "y \<le> 9" by (simp_all add: y_def)
  have x: "0 \<le> x" "x \<le> 3" using assms by (simp_all add: x_def)
  then have xm: "x mod 10 = x" by simp
  have cond: "(x = 3 \<and> y \<le> 1) \<or> x = 1 \<or> x = 2 \<or> (x = 0 \<and> 1 \<le> y)"
    using assms k x y by arith
  have x9: "x \<le> 9" using x by simp
  show ?thesis
    unfolding pad2_def x_def [symmetric] y_def [symmetric] xm
    using cond
    by (simp add: digit_val_digit_char digit_char_not_sep x x9 y k)
qed

lemma days_in_month_le_31: "days_in_month y m \<le> 31"
  by (simp add: days_in_month_def mdays_def)

lemma str_nat_pad4:
  assumes "1000 \<le> y" "y \<le> 9999"
  shows "str_nat (nat y) = pad4 y"
proof -
  define n where "n = nat y"
  have y: "y = int n" using assms(1) by (simp add: n_def)
  have n: "1000 \<le> n" "n \<le> 9999" using assms by (simp_all add: n_def)
  have more: "str_nat k = str_nat (k div 10) @ [digit_char (int (k mod 10))]"
    if "10 \<le> k" for k
    using that by (subst str_nat.simps) simp
  have one: "str_nat k = [digit_char (int k)]" if "k < 10" for k
    using that by (subst str_nat.simps) simp
  have a: "10 \<le> n" and b: "10 \<le> n div 10" and c: "10 \<le> n div 10 div 10"
    and d: "n div 10 div 10 div 10 < 10"
    using n by simp_all
  have "str_nat n = [digit_char (int (n div 10 div 10 div 10)),
      digit_char (int (n div 10 div 10 mod 10)), digit_char (int (n div 10 mod 10)),
      digit_char (int (n mod 10))]"
    by (simp only: more [OF a] more [OF b] more [OF c] one [OF d] append.simps)
  moreover have h: "a div 10 div 10 = a div 100" "a div 10 div 10 div 10 = a div 1000"
    for a :: int
    by (simp_all add: zdiv_zmult2_eq [symmetric])
  have "int (n div 10 div 10 div 10) = y div 1000 mod 10"
    using d by (simp add: y zdiv_int zmod_int h)
  moreover have "int (n div 10 div 10 mod 10) = y div 100 mod 10"
    by (simp add: y zdiv_int zmod_int h)
  moreover have "int (n div 10 mod 10) = y div 10 mod 10"
    by (simp add: y zdiv_int zmod_int)
  moreover have "int (n mod 10) = y mod 10"
    by (simp add: y zmod_int)
  ultimately show ?thesis by (simp only: pad4_def n_def)
qed

lemma strftime_shape:
  assumes "1000 \<le> year d" "year d \<le> 9999"
  shows "strftime d = pad4 (year d) @ CHR ''-'' # pad2 (month d) @ CHR ''-'' # pad2 (day d)"
  by (simp add: strftime_def str_nat_pad4 [OF assms] del: str_nat.simps)

lemma strptime_strftime:
  assumes "valid_date d" "1000 \<le> year d"
  shows "strptime (strftime d) = Inr d"
proof -
  obtain y m k where d: "d = Datetime y m k" by (cases d)
  from assms d have y: "1000 \<le> y" "y \<le> 9999" and m: "1 \<le> m" "m \<le> 12"
    and k: "1 \<le> k" "k \<le> days_in_month y m"
    by (simp_all add: valid_date_def calendar_date_def)
  from k days_in_month_le_31 [of y m] have k31: "k \<le> 31" by simp
  have yf: "year_field (pad4 y) = Some y" using y by (intro year_field_pad4) simp_all
  have mf: "month_field (pad2 m) = Some m" using m by (rule month_field_pad2)
  have kf: "day_field (pad2 k) = Some k" using k(1) k31 by (rule day_field_pad2)
  have sep: "digit_char (m div 10 mod 10) \<noteq> CHR ''-''" "digit_char (m mod 10) \<noteq> CHR ''-''"
    by (simp_all add: digit_char_not_sep)
  have shape: "strftime d = pad4 y @ CHR ''-'' # pad2 m @ CHR ''-'' # pad2 k"
    using strftime_shape [of d] y by (simp add: d)
  have l4: "length (pad4 y) = 4" and l2: "length (pad2 m) = 2" "length (pad2 k) = 2"
    by (simp_all add: pad4_def pad2_def)
  have tw: "takeWhile (\<lambda>c. c \<noteq> CHR ''-'') (pad2 m @ CHR ''-'' # pad2 k) = pad2 m"
    using sep by (simp add: pad2_def)
  have "strptime (strftime d) = datetime_new y m k"
    unfolding strptime_def shape
    by (simp add: l4 l2 tw yf mf kf nth_append Let_def)
  with assms d show ?thesis by (simp add: datetime_new_def)
qed

lemma strftime_no_blank:
  assumes "1000 \<le> year d" "year d \<le> 9999"
  shows "CHR '' '' \<notin> set (strftime d)"
proof -
  have "CHR '' '' \<noteq> digit_char (n mod 10)" for n :: int
    by (rule digit_char_not_sep(2) [THEN not_sym]) simp_all
  then show ?thesis
    unfolding strftime_shape [OF assms] by (simp add: pad4_def pad2_def)
qed

lemma strptime_valid:
  assumes "strptime s = Inr d"
  shows "valid_date d"
  using assms
  by (auto simp: strptime_def Let_def datetime_new_def split: if_splits option.splits)

lemma strptime_error:
  assumes "strptime s = Inl e"
  shows "e = ValueError"
  using assms
  by (auto simp: strptime_def Let_def datetime_new_def split: if_splits option.splits)

section \<open>Timestamps\<close>

lemma timestamp_bounds_calendar:
  "calendar_date Timestamp_min" "calendar_date Timestamp_max"
  by (simp_all add: Timestamp_min_def Timestamp_max_def calendar_date_def days_in_month_def
      mdays_def)

lemma in_timestamp_range_year:
  assumes "calendar_date d" "in_timestamp_range d"
  shows "1677 \<le> year d" and "year d \<le> 2262"
proof -
  show "1677 \<le> year d"
  proof (rule ccontr)
    assume "\<not> 1677 \<le> year d"
    then have "year d < year Timestamp_min" by (simp add: Timestamp_min_def)
    from toordinal_year_less [OF assms(1) timestamp_bounds_calendar(1) this] assms(2)
    show False by (simp add: in_timestamp_range_def)
  qed
  show "year d \<le> 2262"
  proof (rule ccontr)
    assume "\<not> year d \<le> 2262"
    then have "year Timestamp_max < year d" by (simp add: Timestamp_max_def)
    from toordinal_year_less [OF timestamp_bounds_calendar(2) assms(1) this] assms(2)
    show False by (simp add: in_timestamp_range_def)
  qed
qed

lemma in_timestamp_range_valid:
  assumes "calendar_date d" "in_timestamp_range d"
  shows "valid_date d"
  using in_timestamp_range_year [OF assms] assms(1) by (simp add: valid_date_def)

lemma parse_timestamp_strptime:
  assumes "strptime str = Inr d" "CHR '' '' \<notin> set str" "in_timestamp_range d"
  shows "parse_timestamp str = Inr d"
  using assms by (simp add: parse_timestamp_def)

lemma parse_timestamp_strftime:
  assumes "calendar_date d" "in_timestamp_range d"
  shows "parse_timestamp (strftime d) = Inr d"
proof -
  note y = in_timestamp_range_year [OF assms]
  have "strptime (strftime d) = Inr d"
    using in_timestamp_range_valid [OF assms] y(1) by (intro strptime_strftime) simp_all
  moreover have "CHR '' '' \<notin> set (strftime d)"
    using y by (intro strftime_no_blank) simp_all
  ultimately show ?thesis using assms(2) by (rule parse_timestamp_strptime)
qed

lemma parse_timestamp_Inr:
  assumes "parse_timestamp str = Inr d"
  shows "strptime str = Inr d" and "CHR '' '' \<notin> set str" and "in_timestamp_range d"
  using assms by (auto simp: parse_timestamp_def split: if_splits sum.splits)

text \<open>A blank in a string that \<open>strptime\<close> accepts stands before a one-digit day.\<close>

lemma digit_val_range:
  assumes "digit_val c = Some v"
  shows "0 \<le> v" and "v \<le> 9" and "c \<noteq> CHR '' ''"
  using assms by (auto simp: digit_val_def split: if_splits)

lemma year_field_no_blank:
  assumes "year_field xs = Some y"
  shows "CHR '' '' \<notin> set xs"
  using assms
  by (auto elim!: year_field.elims split: option.splits dest: digit_val_range(3))

lemma month_field_no_blank:
  assumes "month_field xs = Some y"
  shows "CHR '' '' \<notin> set xs"
  using assms
  by (auto elim!: month_field.elims split: option.splits if_splits dest: digit_val_range(3))

lemma day_field_blank:
  assumes "day_field xs = Some k" "CHR '' '' \<in> set xs"
  shows "k \<le> 9"
  using assms
  by (auto elim!: day_field.elims split: option.splits if_splits
      dest: digit_val_range)

lemma strptime_blank_day:
  assumes "strptime str = Inr d" "CHR '' '' \<in> set str"
  shows "day d \<le> 9"
proof -
  define rest where "rest = drop 5 str"
  define m where "m = takeWhile (\<lambda>c. c \<noteq> CHR ''-'') rest"
  define dd where "dd = drop (Suc (length m)) rest"
  from assms(1) have len: "5 \<le> length str" and sep: "str ! 4 = CHR ''-''"
    and lm: "length m < length rest"
    by (auto simp: strptime_def Let_def rest_def m_def split: if_splits)
  from assms(1) len sep lm obtain y' m' d' where f: "year_field (take 4 str) = Some y'"
    "month_field m = Some m'" "day_field dd = Some d'" and dn: "datetime_new y' m' d' = Inr d"
    by (auto simp: strptime_def Let_def rest_def [symmetric] m_def [symmetric]
        dd_def [symmetric] split: option.splits)
  from dn have day: "day d = d'" by (auto simp: datetime_new_def split: if_splits)
  have s1: "str = take 4 str @ CHR ''-'' # rest"
    using len sep id_take_nth_drop [of 4 str] by (simp add: rest_def)
  have tk: "take (length m) rest = m"
    unfolding m_def by (rule takeWhile_eq_take [symmetric])
  have "rest ! length m = CHR ''-''"
    using lm nth_length_takeWhile [of "\<lambda>c. c \<noteq> CHR ''-''" rest] by (simp add: m_def)
  then have s2: "rest = m @ CHR ''-'' # dd"
    using lm id_take_nth_drop [of "length m" rest] by (simp add: dd_def tk)
  have "set str = set (take 4 str @ CHR ''-'' # rest)"
    by (rule arg_cong [where f = set, OF s1])
  with assms(2) year_field_no_blank [OF f(1)] have "CHR '' '' \<in> set rest" by simp
  moreover have "set rest = set (m @ CHR ''-'' # dd)"
    by (rule arg_cong [where f = set, OF s2])
  ultimately have "CHR '' '' \<in> set dd"
    using month_field_no_blank [OF f(2)] by simp
  from day_field_blank [OF f(3) this] day show ?thesis by simp
qed

lemma length_iterate_dates: "length (iterate_dates n f d) = n"
  by (induction n arbitrary: d) simp_all

lemma nth_iterate_dates: "i < n \<Longrightarrow> iterate_dates n f d ! i = (f ^^ i) d"
proof (induction n arbitrary: d i)
  case 0
  then show ?case by simp
next
  case (Suc n)
  then show ?case by (cases i) (simp_all add: funpow_swap1)
qed

lemma valid_date_ordinal:
  assumes "valid_date d"
  shows "1 \<le> toordinal d \<and> toordinal d \<le> max_ordinal"
proof -
  from assms have c: "calendar_date d" and y: "1 \<le> year d" "year d \<le> 9999"
    by (simp_all add: valid_date_def)
  have one: "days_before_year 1 = 0" and top: "days_before_year 10000 = max_ordinal"
    by (simp_all add: days_before_year_def max_ordinal_def toordinal_def days_before_month_def
        is_leap_def)
  have "days_before_year 1 \<le> days_before_year (year d)"
    using y(1) by (rule days_before_year_mono)
  moreover have "days_before_year (year d + 1) \<le> days_before_year 10000"
    using y(2) by (intro days_before_year_mono) simp
  ultimately show ?thesis
    using toordinal_year_bounds [OF c] one top by simp
qed

lemma valid_date_between:
  assumes "valid_date a" "valid_date b" "calendar_date d"
    "toordinal a \<le> toordinal d" "toordinal d \<le> toordinal b"
  shows "valid_date d"
  using year_in_range [OF assms(3)] valid_date_ordinal [OF assms(1)]
    valid_date_ordinal [OF assms(2)] assms(3-5)
  by (simp add: valid_date_def)

lemma days_between_props:
  assumes "valid_date a" "valid_date b" "toordinal a \<le> toordinal b"
  shows "int (length (days_between a b)) = toordinal b - toordinal a + 1"
    and "\<forall>i<length (days_between a b). valid_date (days_between a b ! i)
           \<and> toordinal (days_between a b ! i) = toordinal a + int i"
    and "hd (days_between a b) = a"
    and "last (days_between a b) = b"
proof -
  define n where "n = nat (toordinal b - toordinal a + 1)"
  have len: "length (days_between a b) = n"
    by (simp add: days_between_def n_def length_iterate_dates)
  have npos: "0 < n" and nint: "int n = toordinal b - toordinal a + 1"
    using assms(3) by (simp_all add: n_def)
  have ca: "calendar_date a" and cb: "calendar_date b"
    using assms(1,2) by (simp_all add: valid_date_def)
  have nth: "days_between a b ! i = plus_days a i" if "i < n" for i
    using that by (simp add: days_between_def n_def [symmetric] nth_iterate_dates funpow_next_day)
  show "int (length (days_between a b)) = toordinal b - toordinal a + 1"
    using len nint by simp
  show "\<forall>i<length (days_between a b). valid_date (days_between a b ! i)
           \<and> toordinal (days_between a b ! i) = toordinal a + int i"
  proof (intro allI impI)
    fix i assume "i < length (days_between a b)"
    then have i: "i < n" by (simp add: len)
    have p: "calendar_date (plus_days a i)" "toordinal (plus_days a i) = toordinal a + int i"
      using plus_days_calendar [OF ca, of i] by simp_all
    have "valid_date (plus_days a i)"
      using assms(1,2) p(1)
    proof (rule valid_date_between)
      show "toordinal a \<le> toordinal (plus_days a i)" by (simp add: p(2))
      show "toordinal (plus_days a i) \<le> toordinal b" using i nint by (simp add: p(2))
    qed
    with p(2) show "valid_date (days_between a b ! i)
           \<and> toordinal (days_between a b ! i) = toordinal a + int i"
      by (simp add: nth [OF i])
  qed
  have ne: "days_between a b \<noteq> []" using len npos by auto
  show "hd (days_between a b) = a"
    using nth [OF npos] ne by (simp add: hd_conv_nth)
  have "last (days_between a b) = plus_days a (n - 1)"
    using ne npos by (simp add: last_conv_nth len nth)
  moreover have "toordinal (plus_days a (n - 1)) = toordinal b"
    using plus_days_calendar [OF ca, of "n - 1"] nint npos by simp
  moreover have "calendar_date (plus_days a (n - 1))"
    using plus_days_calendar [OF ca, of "n - 1"] by simp
  ultimately show "last (days_between a b) = b"
    using toordinal_inj [OF _ cb] by simp
qed

section \<open>The planner on daily and unbatched requests\<close>

text \<open>
  Claim C7 as stated fails in its daily half: the \<^verbatim>\<open>daily\<close> branch hands the two
  strings to pandas as they are. The dates of the year 1500 are valid and parse, but no
  timestamp of pandas exists before 1677-09-22, and \<^verbatim>\<open>pd.date_range\<close> raises
  OutOfBoundsDatetime; \<open>strptime\<close> accepts a blank in front of a one-digit day, the
  parser of pandas does not, and \<^verbatim>\<open>pd.date_range\<close> raises DateParseError. No range
  is returned in either case.
\<close>

theorem split_daily_raises_in_pandas:
  "ga_api_split_request_date_batch_freq ''1500-01-01'' ''1500-01-02'' (Some ''daily'')
     = Inl OutOfBoundsDatetime
   \<and> ga_api_split_request_date_batch_freq ''2023-01- 5'' ''2023-01- 6'' (Some ''daily'')
     = Inl DateParseError"
  by code_simp

text \<open>
  Claim C7 as amended. Let both date strings parse, to the dates \<open>s\<close> and \<open>e\<close>, with
  \<open>s\<close> not after \<open>e\<close>. If neither string has a blank in front of its day and both
  dates are days of the timestamp range of pandas (1677-09-22 to 2262-04-11), then with
  frequency \<^verbatim>\<open>daily\<close> the planner returns one range per day: there are
  \<open>(e - s).days + 1\<close> of them, the range at index \<open>i\<close> starts and ends on the same
  date (it is one day long), which is the valid date \<open>i\<close> days after \<open>s\<close> (so the
  order is chronological), the first range starts on \<open>s\<close> and the last one ends on
  \<open>e\<close>. With no frequency the planner returns exactly one range, from \<open>s\<close> to
  \<open>e\<close>, whatever the strings and the dates are.
\<close>

theorem split_daily_and_none:
  assumes "strptime start_str = Inr s" "strptime end_str = Inr e"
    "toordinal s \<le> toordinal e"
  shows "(CHR '' '' \<notin> set start_str \<and> CHR '' '' \<notin> set end_str
            \<and> in_timestamp_range s \<and> in_timestamp_range e \<longrightarrow>
          (\<exists>ds. ga_api_split_request_date_batch_freq start_str end_str (Some ''daily'')
             = Inr (map (\<lambda>d. \<lparr>start_date = strftime d, end_date = strftime d\<rparr>) ds)
           \<and> int (length ds) = toordinal e - toordinal s + 1
           \<and> (\<forall>i<length ds. valid_date (ds ! i) \<and> toordinal (ds ! i) = toordinal s + int i)
           \<and> hd ds = s \<and> last ds = e))
       \<and> ga_api_split_request_date_batch_freq start_str end_str None
             = Inr [\<lparr>start_date = strftime s, end_date = strftime e\<rparr>]"
proof -
  have vs: "valid_date s" and ve: "valid_date e"
    using assms(1,2) by (simp_all add: strptime_valid)
  have "ga_api_split_request_date_batch_freq start_str end_str (Some ''daily'')
      = Inr (map (\<lambda>d. \<lparr>start_date = strftime d, end_date = strftime d\<rparr>) (days_between s e))"
    if "CHR '' '' \<notin> set start_str" "CHR '' '' \<notin> set end_str"
      "in_timestamp_range s" "in_timestamp_range e"
  proof -
    have "parse_timestamp start_str = Inr s" "parse_timestamp end_str = Inr e"
      using assms(1,2) that by (simp_all add: parse_timestamp_strptime)
    then show ?thesis
      by (simp add: ga_api_split_request_date_batch_freq_def split_daily_def date_range_def
          assms(1,2) daily_batch_def [abs_def])
  qed
  moreover have "ga_api_split_request_date_batch_freq start_str end_str None
             = Inr [\<lparr>start_date = strftime s, end_date = strftime e\<rparr>]"
    by (simp add: ga_api_split_request_date_batch_freq_def assms)
  ultimately show ?thesis
    using days_between_props [OF vs ve assms(3)] by blast
qed

theorem split_daily_and_none_witness:
  "(\<exists>ds. ga_api_split_request_date_batch_freq ''2023-12-30'' ''2024-01-02'' (Some ''daily'')
             = Inr (map (\<lambda>d. \<lparr>start_date = strftime d, end_date = strftime d\<rparr>) ds)
           \<and> int (length ds) = 4
           \<and> hd ds = Datetime 2023 12 30 \<and> last ds = Datetime 2024 1 2)
       \<and> ga_api_split_request_date_batch_freq ''2023-12-30'' ''2024-01-02'' None
             = Inr [\<lparr>start_date = ''2023-12-30'', end_date = ''2024-01-02''\<rparr>]"
proof -
  have s: "strptime ''2023-12-30'' = Inr (Datetime 2023 12 30)"
    and e: "strptime ''2024-01-02'' = Inr (Datetime 2024 1 2)"
    by code_simp+
  have le: "toordinal (Datetime 2023 12 30) \<le> toordinal (Datetime 2024 1 2)"
    by code_simp
  have d: "toordinal (Datetime 2024 1 2) - toordinal (Datetime 2023 12 30) + 1 = 4"
    by code_simp
  have f: "strftime (Datetime 2023 12 30) = ''2023-12-30''"
    "strftime (Datetime 2024 1 2) = ''2024-01-02''"
    by code_simp+
  have b: "CHR '' '' \<notin> set ''2023-12-30''" "CHR '' '' \<notin> set ''2024-01-02''"
    by simp_all
  have r: "in_timestamp_range (Datetime 2023 12 30)" "in_timestamp_range (Datetime 2024 1 2)"
    by code_simp+
  show ?thesis
    using split_daily_and_none [OF s e le] b r unfolding d f by blast
qed

section \<open>Ranges that follow one another\<close>

lemma contiguous_cover:
  fixes lo hi :: "nat \<Rightarrow> int"
  assumes "\<forall>i. Suc i < n \<longrightarrow> lo (Suc i) = hi i + 1" "0 < n" "lo 0 \<le> x" "x \<le> hi (n - 1)"
  shows "\<exists>i<n. lo i \<le> x \<and> x \<le> hi i"
  using assms
proof (induction n)
  case 0
  then show ?case by simp
next
  case (Suc n)
  show ?case
  proof (cases "n = 0")
    case True
    with Suc.prems show ?thesis by auto
  next
    case False
    then have npos: "0 < n" by simp
    show ?thesis
    proof (cases "x \<le> hi (n - 1)")
      case True
      from Suc.prems(1) have "\<forall>i. Suc i < n \<longrightarrow> lo (Suc i) = hi i + 1" by simp
      from Suc.IH [OF this npos Suc.prems(3) True] show ?thesis
        using less_Suc_eq by auto
    next
      case above: False
      from npos obtain m where m: "n = Suc m" by (cases n) simp_all
      from Suc.prems(1) m have "lo (Suc m) = hi m + 1" by simp
      with above m have "lo n \<le> x" by simp
      moreover from Suc.prems(4) have "x \<le> hi n" by simp
      ultimately show ?thesis by blast
    qed
  qed
qed

section \<open>The planner on monthly requests\<close>

lemma next_month_start_props:
  assumes "1 \<le> month d" "month d \<le> 12"
  shows "day (next_month_start d) = 1"
    and "1 \<le> month (next_month_start d)" and "month (next_month_start d) \<le> 12"
    and "year (next_month_start d) * 12 + month (next_month_start d)
           = year d * 12 + month d + 1"
  using assms by (simp_all add: next_month_start_def)

lemma month_start_iter:
  assumes "1 \<le> month a" "month a \<le> 12" "day a = 1"
  shows "day ((next_month_start ^^ i) a) = 1
     \<and> 1 \<le> month ((next_month_start ^^ i) a) \<and> month ((next_month_start ^^ i) a) \<le> 12
     \<and> year ((next_month_start ^^ i) a) * 12 + month ((next_month_start ^^ i) a)
           = year a * 12 + month a + int i"
proof (induction i)
  case 0
  from assms show ?case by simp
next
  case (Suc i)
  then show ?case by (simp add: next_month_start_props)
qed

lemma month_number_inj:
  assumes "1 \<le> month a" "month a \<le> 12" "1 \<le> month b" "month b \<le> 12" "day a = day b"
    "year a * 12 + month a = year b * 12 + month b"
  shows "a = b"
proof -
  from assms(1-4,6) have "year a = year b" by arith
  with assms(6) have "month a = month b" by simp
  with \<open>year a = year b\<close> assms(5) show ?thesis by (simp add: datetime.expand)
qed

lemma month_number_mono:
  assumes "calendar_date a" "calendar_date b" "toordinal a \<le> toordinal b"
  shows "year a * 12 + month a \<le> year b * 12 + month b"
proof (rule ccontr)
  assume "\<not> ?thesis"
  then have gt: "year b * 12 + month b < year a * 12 + month a" by simp
  from assms(1,2) have m: "1 \<le> month a" "month a \<le> 12" "1 \<le> month b" "month b \<le> 12"
    and dd: "1 \<le> day a" "day b \<le> days_in_month (year b) (month b)"
    by (simp_all add: calendar_date_def)
  from gt m have "year b < year a \<or> (year b = year a \<and> month b < month a)" by arith
  then show False
  proof
    assume "year b < year a"
    from toordinal_year_less [OF assms(2,1) this] assms(3) show False by simp
  next
    assume eq: "year b = year a \<and> month b < month a"
    with days_before_month_less [of "month b" "month a" "year a"] m
    have "days_before_month (year a) (month b) + days_in_month (year a) (month b)
        \<le> days_before_month (year a) (month a)" by simp
    with eq dd assms(3) show False by (simp add: toordinal_def)
  qed
qed

lemma days_in_month_pos: "1 \<le> days_in_month y m"
  by (simp add: days_in_month_def mdays_def)

lemma month_end_props:
  assumes "valid_date d"
  shows "valid_date (month_end d)"
    and "toordinal d \<le> toordinal (month_end d)"
    and "next_day (month_end d) = next_month_start d"
  using assms days_in_month_pos [of "year d" "month d"]
  by (simp_all add: valid_date_def calendar_date_def month_end_def toordinal_def
      next_day_def next_month_start_def)

lemma month_start_le:
  assumes "valid_date d"
  shows "valid_date (Datetime (year d) (month d) 1)"
    and "toordinal (Datetime (year d) (month d) 1) \<le> toordinal d"
  using assms days_in_month_pos [of "year d" "month d"]
  by (simp_all add: valid_date_def calendar_date_def toordinal_def)

lemma toordinal_next_month_start:
  assumes "valid_date d"
  shows "toordinal (next_month_start d) = toordinal (month_end d) + 1"
proof -
  from month_end_props(1) [OF assms] have "calendar_date (month_end d)"
    by (simp add: valid_date_def)
  from toordinal_next_day [OF this] show ?thesis
    by (simp add: month_end_props(3) [OF assms])
qed

lemma monthly_batches_valid:
  assumes "\<forall>d \<in> set ds. valid_date d"
  shows "monthly_batches ds
    = Inr (map (\<lambda>d. \<lparr>start_date = strftime d, end_date = strftime (month_end d)\<rparr>) ds)"
  using assms
proof (induction ds)
  case Nil
  show ?case by simp
next
  case (Cons d ds)
  from Cons.prems have d: "valid_date d" by simp
  then have m: "monthrange_ndays (year d) (month d) = Inr (days_in_month (year d) (month d))"
    by (simp add: monthrange_ndays_def valid_date_def calendar_date_def)
  have n: "datetime_new (year d) (month d) (days_in_month (year d) (month d))
      = Inr (month_end d)"
    using month_end_props(1) [OF d] by (simp add: datetime_new_def month_end_def)
  from Cons show ?case by (simp add: m n)
qed

lemma month_starts_between_props:
  assumes "valid_date s" "valid_date e" "toordinal s \<le> toordinal e"
  defines "ds \<equiv> month_starts_between (Datetime (year s) (month s) 1) (month_end e)"
  shows "ds \<noteq> []"
    and "\<forall>d \<in> set ds. valid_date d \<and> day d = 1"
    and "hd ds = Datetime (year s) (month s) 1"
    and "last ds = Datetime (year e) (month e) 1"
    and "\<forall>i. Suc i < length ds \<longrightarrow> ds ! Suc i = next_month_start (ds ! i)"
proof -
  define a where "a = Datetime (year s) (month s) 1"
  define n where "n = nat ((year e * 12 + month e) - (year s * 12 + month s) + 1)"
  from assms(1,2) have cs: "calendar_date s" and ce: "calendar_date e"
    and ys: "1 \<le> year s" and ye: "year e \<le> 9999"
    by (simp_all add: valid_date_def)
  from cs ce have ms: "1 \<le> month s" "month s \<le> 12" and me: "1 \<le> month e" "month e \<le> 12"
    by (simp_all add: calendar_date_def)
  have le: "year s * 12 + month s \<le> year e * 12 + month e"
    using cs ce assms(3) by (rule month_number_mono)
  then have npos: "0 < n" and nint: "int n = (year e * 12 + month e) - (year s * 12 + month s) + 1"
    by (simp_all add: n_def)
  have ds: "ds = iterate_dates n next_month_start a"
    by (simp add: ds_def month_starts_between_def a_def n_def month_end_def)
  have len: "length ds = n" by (simp add: ds length_iterate_dates)
  have nth: "ds ! i = (next_month_start ^^ i) a" if "i < n" for i
    using that by (simp add: ds nth_iterate_dates)
  have am: "1 \<le> month a" "month a \<le> 12" "day a = 1" using ms by (simp_all add: a_def)
  note it = month_start_iter [OF am]
  show ne: "ds \<noteq> []" using len npos by auto
  show "\<forall>d \<in> set ds. valid_date d \<and> day d = 1"
  proof
    fix d assume "d \<in> set ds"
    then obtain i where i: "i < n" "d = (next_month_start ^^ i) a"
      using len nth by (auto simp: in_set_conv_nth)
    from it [of i] i(2) have d: "day d = 1" "1 \<le> month d" "month d \<le> 12"
      "year d * 12 + month d = year a * 12 + month a + int i" by simp_all
    from d(4) have lo: "year s * 12 + month s \<le> year d * 12 + month d"
      by (simp add: a_def)
    from d(4) i(1) nint have hi: "year d * 12 + month d \<le> year e * 12 + month e"
      by (simp add: a_def)
    from lo d(2,3) ms have "year s \<le> year d" by arith
    moreover from hi d(2,3) me have "year d \<le> year e" by arith
    ultimately have "1 \<le> year d" "year d \<le> 9999" using ys ye by simp_all
    with d days_in_month_pos [of "year d" "month d"]
    show "valid_date d \<and> day d = 1" by (simp add: valid_date_def calendar_date_def)
  qed
  show "hd ds = Datetime (year s) (month s) 1"
    using nth [OF npos] ne by (simp add: hd_conv_nth a_def)
  have "last ds = (next_month_start ^^ (n - 1)) a"
    using ne npos by (simp add: last_conv_nth len nth)
  moreover have "(next_month_start ^^ (n - 1)) a = Datetime (year e) (month e) 1"
  proof (rule month_number_inj)
    from it [of "n - 1"] nint npos
    show "year ((next_month_start ^^ (n - 1)) a) * 12 + month ((next_month_start ^^ (n - 1)) a)
        = year (Datetime (year e) (month e) 1) * 12 + month (Datetime (year e) (month e) 1)"
      by (simp add: a_def)
  qed (use it [of "n - 1"] me in simp_all)
  ultimately show "last ds = Datetime (year e) (month e) 1" by simp
  show "\<forall>i. Suc i < length ds \<longrightarrow> ds ! Suc i = next_month_start (ds ! i)"
    by (simp add: len nth)
qed

lemma split_monthly_eq:
  assumes "strptime start_str = Inr s" "strptime end_str = Inr e"
    "in_timestamp_range (Datetime (year s) (month s) 1)" "in_timestamp_range (month_end e)"
    "day s = 1 \<longrightarrow> CHR '' '' \<notin> set start_str"
  shows "split_monthly start_str end_str s e
    = monthly_batches (month_starts_between (Datetime (year s) (month s) 1) (month_end e))"
proof -
  have vs: "valid_date s" and ve: "valid_date e"
    using assms by (simp_all add: strptime_valid)
  have m: "monthrange_ndays (year e) (month e) = Inr (days_in_month (year e) (month e))"
    using ve by (simp add: monthrange_ndays_def valid_date_def calendar_date_def)
  have n: "datetime_new (year e) (month e) (days_in_month (year e) (month e))
      = Inr (month_end e)"
    using month_end_props(1) [OF ve] by (simp add: datetime_new_def month_end_def)
  have a: "parse_timestamp
      (if day s \<noteq> 1 then strftime (Datetime (year s) (month s) 1) else start_str)
      = Inr (Datetime (year s) (month s) 1)"
  proof (cases "day s = 1")
    case True
    then have "s = Datetime (year s) (month s) 1" by (cases s) simp
    with True assms(1,3,5) parse_timestamp_strptime [of start_str s] show ?thesis by simp
  next
    case False
    have "calendar_date (Datetime (year s) (month s) 1)"
      using month_start_le(1) [OF vs] by (simp add: valid_date_def)
    from parse_timestamp_strftime [OF this assms(3)] False show ?thesis by simp
  qed
  have b: "parse_timestamp (if e \<noteq> month_end e then strftime (month_end e) else end_str)
      = Inr (month_end e)"
  proof (cases "e = month_end e")
    case True
    then have "day e = days_in_month (year e) (month e)"
      by (cases e) (simp add: month_end_def)
    then have "\<not> day e \<le> 9"
      by (simp add: days_in_month_def mdays_def)
    with strptime_blank_day [OF assms(2)] have "CHR '' '' \<notin> set end_str" by blast
    with True assms(2,4) parse_timestamp_strptime [of end_str e] show ?thesis by simp
  next
    case False
    have "calendar_date (month_end e)"
      using month_end_props(1) [OF ve] by (simp add: valid_date_def)
    from parse_timestamp_strftime [OF this assms(4)] False show ?thesis by simp
  qed
  show ?thesis
    by (simp add: split_monthly_def m n Let_def date_range_def a b)
qed

text \<open>
  Claim C6 as stated fails: the \<^verbatim>\<open>monthly\<close> branch hands the first day of the start
  month and the last day of the end month to pandas. For a request in the year 1500 both
  dates are valid and written as the claim wants, but no timestamp of pandas exists
  before 1677-09-22, and \<^verbatim>\<open>pd.date_range\<close> raises OutOfBoundsDatetime. A start date
  that is the first of its month goes to pandas as the caller wrote it; \<open>strptime\<close>
  accepts a blank in front of the one-digit day, the parser of pandas does not, and
  \<^verbatim>\<open>pd.date_range\<close> raises DateParseError. No range is returned in either case.
\<close>

theorem split_monthly_raises_in_pandas:
  "ga_api_split_request_date_batch_freq ''1500-01-15'' ''1500-02-15'' (Some ''monthly'')
     = Inl OutOfBoundsDatetime
   \<and> ga_api_split_request_date_batch_freq ''2023-01- 1'' ''2023-01-31'' (Some ''monthly'')
     = Inl DateParseError"
  by code_simp

text \<open>
  Claim C6 as amended. Let both date strings parse, to the dates \<open>s\<close> and \<open>e\<close>, with
  \<open>s\<close> not after \<open>e\<close>; let the first day of the month of \<open>s\<close> and the last day of
  the month of \<open>e\<close> be days of the timestamp range of pandas (1677-09-22 to
  2262-04-11); and if \<open>s\<close> is the first of its month, let its string have no blank in
  front of the day. With frequency \<^verbatim>\<open>monthly\<close> the planner returns one range per date
  of a list \<open>ds\<close>: each date is a valid first day of a month and its range ends on the
  last day of that month (\<open>days_in_month\<close> gives February 29 days in a leap year); the
  first is the month of \<open>s\<close>, the last the month of \<open>e\<close>, and each next one is the
  first day of the following month; every day from \<open>s\<close> to \<open>e\<close> lies in one of the
  ranges. And the planner returns exactly the two ranges of the example.
\<close>

theorem split_monthly_whole_months:
  assumes "strptime start_str = Inr s" "strptime end_str = Inr e"
    "toordinal s \<le> toordinal e"
    "in_timestamp_range (Datetime (year s) (month s) 1)" "in_timestamp_range (month_end e)"
    "day s = 1 \<longrightarrow> CHR '' '' \<notin> set start_str"
  shows "(\<exists>ds. ga_api_split_request_date_batch_freq start_str end_str (Some ''monthly'')
             = Inr (map (\<lambda>d. \<lparr>start_date = strftime d, end_date = strftime (month_end d)\<rparr>) ds)
           \<and> ds \<noteq> []
           \<and> (\<forall>d \<in> set ds. valid_date d \<and> day d = 1 \<and> valid_date (month_end d))
           \<and> hd ds = Datetime (year s) (month s) 1
           \<and> last ds = Datetime (year e) (month e) 1
           \<and> (\<forall>i. Suc i < length ds \<longrightarrow> ds ! Suc i = next_month_start (ds ! i))
           \<and> (\<forall>x. toordinal s \<le> x \<and> x \<le> toordinal e \<longrightarrow>
                 (\<exists>d \<in> set ds. toordinal d \<le> x \<and> x \<le> toordinal (month_end d))))
       \<and> ga_api_split_request_date_batch_freq ''2023-01-15'' ''2023-02-15'' (Some ''monthly'')
           = Inr [\<lparr>start_date = ''2023-01-01'', end_date = ''2023-01-31''\<rparr>,
                  \<lparr>start_date = ''2023-02-01'', end_date = ''2023-02-28''\<rparr>]"
proof -
  have vs: "valid_date s" and ve: "valid_date e"
    using assms(1,2) by (simp_all add: strptime_valid)
  define ds where "ds = month_starts_between (Datetime (year s) (month s) 1) (month_end e)"
  note p = month_starts_between_props [OF vs ve assms(3), folded ds_def]
  have valid: "\<forall>d \<in> set ds. valid_date d" using p(2) by blast
  have split: "ga_api_split_request_date_batch_freq start_str end_str (Some ''monthly'')
      = Inr (map (\<lambda>d. \<lparr>start_date = strftime d, end_date = strftime (month_end d)\<rparr>) ds)"
    using monthly_batches_valid [OF valid]
    by (simp add: ga_api_split_request_date_batch_freq_def assms(1,2)
        split_monthly_eq [OF assms(1,2,4,5,6)] ds_def)
  have ends: "\<forall>d \<in> set ds. valid_date d \<and> day d = 1 \<and> valid_date (month_end d)"
    using p(2) month_end_props(1) by blast
  have cover: "\<exists>d \<in> set ds. toordinal d \<le> x \<and> x \<le> toordinal (month_end d)"
    if x: "toordinal s \<le> x" "x \<le> toordinal e" for x
  proof -
    have step: "\<forall>i. Suc i < length ds \<longrightarrow>
        toordinal (ds ! Suc i) = toordinal (month_end (ds ! i)) + 1"
    proof (intro allI impI)
      fix i assume i: "Suc i < length ds"
      then have "ds ! i \<in> set ds" by simp
      with valid have "valid_date (ds ! i)" by blast
      from toordinal_next_month_start [OF this] p(5) i
      show "toordinal (ds ! Suc i) = toordinal (month_end (ds ! i)) + 1" by simp
    qed
    have pos: "0 < length ds" using p(1) by simp
    have first: "toordinal (ds ! 0) \<le> x"
      using p(1,3) month_start_le(2) [OF vs] x(1) by (simp add: hd_conv_nth)
    have "month_end (last ds) = month_end e"
      by (simp add: p(4) month_end_def)
    with month_end_props(2) [OF ve] x(2)
    have final: "x \<le> toordinal (month_end (ds ! (length ds - 1)))"
      using p(1) by (simp add: last_conv_nth)
    from contiguous_cover [of "length ds" "\<lambda>i. toordinal (ds ! i)"
        "\<lambda>i. toordinal (month_end (ds ! i))" x, OF step pos first final]
    obtain i where "i < length ds" "toordinal (ds ! i) \<le> x"
      "x \<le> toordinal (month_end (ds ! i))" by blast
    then show ?thesis using nth_mem by blast
  qed
  have example: "ga_api_split_request_date_batch_freq ''2023-01-15'' ''2023-02-15''
      (Some ''monthly'')
           = Inr [\<lparr>start_date = ''2023-01-01'', end_date = ''2023-01-31''\<rparr>,
                  \<lparr>start_date = ''2023-02-01'', end_date = ''2023-02-28''\<rparr>]"
    by code_simp
  from split p(1) ends p(3,4,5) cover example show ?thesis by blast
qed

theorem split_monthly_whole_months_witness:
  "\<exists>ds. ga_api_split_request_date_batch_freq ''2023-11-15'' ''2024-02-15'' (Some ''monthly'')
             = Inr (map (\<lambda>d. \<lparr>start_date = strftime d, end_date = strftime (month_end d)\<rparr>) ds)
           \<and> ds \<noteq> []
           \<and> hd ds = Datetime 2023 11 1
           \<and> last ds = Datetime 2024 2 1"
proof -
  have s: "strptime ''2023-11-15'' = Inr (Datetime 2023 11 15)"
    and e: "strptime ''2024-02-15'' = Inr (Datetime 2024 2 15)"
    by code_simp+
  have le: "toordinal (Datetime 2023 11 15) \<le> toordinal (Datetime 2024 2 15)"
    by code_simp
  have lo: "in_timestamp_range (Datetime (year (Datetime 2023 11 15))
      (month (Datetime 2023 11 15)) 1)"
    and hi: "in_timestamp_range (month_end (Datetime 2024 2 15))"
    by code_simp+
  have b: "day (Datetime 2023 11 15) = 1 \<longrightarrow> CHR '' '' \<notin> set ''2023-11-15''"
    by simp
  from split_monthly_whole_months [OF s e le lo hi b] show ?thesis
    by (elim conjE exE) (simp, blast)
qed

section \<open>Inputs the planner does not check\<close>

text \<open>
  Claim C8 as stated fails: with the start date after the end date and no frequency the
  planner returns a range, and with a frequency it does not know it returns the empty
  list; neither raises.
\<close>

theorem split_checks_neither_order_nor_frequency:
  "ga_api_split_request_date_batch_freq ''2023-01-02'' ''2023-01-01'' None
     = Inr [\<lparr>start_date = ''2023-01-02'', end_date = ''2023-01-01''\<rparr>]
   \<and> ga_api_split_request_date_batch_freq ''2023-01-01'' ''2023-01-02'' (Some ''yearly'')
     = Inr []"
  by code_simp

text \<open>
  Claim C8 as amended. The planner raises when one of the two strings does not parse as
  a date, and the exception is ValueError, whatever the frequency. It does not compare
  the two dates: with no frequency it returns the one range from the start date to the
  end date in either order. A frequency that is none of the three names gives the empty
  list.
\<close>

theorem split_raises_on_unparseable_only:
  "((\<exists>x. strptime start_str = Inl x) \<or> (\<exists>x. strptime end_str = Inl x) \<longrightarrow>
      ga_api_split_request_date_batch_freq start_str end_str freq = Inl ValueError)
   \<and> (\<forall>s e. strptime start_str = Inr s \<and> strptime end_str = Inr e \<longrightarrow>
        ga_api_split_request_date_batch_freq start_str end_str None
          = Inr [\<lparr>start_date = strftime s, end_date = strftime e\<rparr>]
        \<and> (f \<noteq> ''daily'' \<and> f \<noteq> ''weekly'' \<and> f \<noteq> ''monthly'' \<longrightarrow>
             ga_api_split_request_date_batch_freq start_str end_str (Some f) = Inr []))"
proof -
  have "ga_api_split_request_date_batch_freq start_str end_str freq = Inl ValueError"
    if "(\<exists>x. strptime start_str = Inl x) \<or> (\<exists>x. strptime end_str = Inl x)"
  proof (cases "strptime start_str")
    case (Inl x)
    with strptime_error [OF Inl] show ?thesis
      by (simp add: ga_api_split_request_date_batch_freq_def)
  next
    case (Inr s)
    with that obtain x where x: "strptime end_str = Inl x" by auto
    from strptime_error [OF x] x Inr show ?thesis
      by (simp add: ga_api_split_request_date_batch_freq_def)
  qed
  then show ?thesis
    by (auto simp: ga_api_split_request_date_batch_freq_def)
qed

theorem split_raises_on_unparseable_only_witness:
  "ga_api_split_request_date_batch_freq ''2023-02-30'' ''2023-03-01'' (Some ''daily'')
     = Inl ValueError
   \<and> ga_api_split_request_date_batch_freq ''2023-03-05'' ''2023-03-01'' None
     = Inr [\<lparr>start_date = ''2023-03-05'', end_date = ''2023-03-01''\<rparr>]
   \<and> ga_api_split_request_date_batch_freq ''2023-03-05'' ''2023-03-01'' (Some ''hourly'')
     = Inr []"
proof -
  have bad: "strptime ''2023-02-30'' = Inl ValueError" by code_simp
  have s: "strptime ''2023-03-05'' = Inr (Datetime 2023 3 5)"
    and e: "strptime ''2023-03-01'' = Inr (Datetime 2023 3 1)"
    by code_simp+
  have f: "strftime (Datetime 2023 3 5) = ''2023-03-05''"
    "strftime (Datetime 2023 3 1) = ''2023-03-01''"
    by code_simp+
  have 1: "ga_api_split_request_date_batch_freq ''2023-02-30'' ''2023-03-01'' (Some ''daily'')
     = Inl ValueError"
    using split_raises_on_unparseable_only
      [of "''2023-02-30''" "''2023-03-01''" "Some ''daily''" "''hourly''", THEN conjunct1]
    by (simp only: bad) blast
  note rest = split_raises_on_unparseable_only
      [of "''2023-03-05''" "''2023-03-01''" None "''hourly''", THEN conjunct2, THEN spec,
        THEN spec, THEN mp, OF conjI, OF s e]
  have 2: "ga_api_split_request_date_batch_freq ''2023-03-05'' ''2023-03-01'' None
     = Inr [\<lparr>start_date = ''2023-03-05'', end_date = ''2023-03-01''\<rparr>]"
    using rest [THEN conjunct1] by (simp only: f)
  have 3: "ga_api_split_request_date_batch_freq ''2023-03-05'' ''2023-03-01'' (Some ''hourly'')
     = Inr []"
    using rest [THEN conjunct2] by simp
  from 1 2 3 show ?thesis by (intro conjI)
qed

section \<open>The planner on weekly requests\<close>

lemma isoweekday_range: "1 \<le> isoweekday d \<and> isoweekday d \<le> 7"
proof -
  have "0 \<le> toordinal d mod 7" "toordinal d mod 7 < 7" by simp_all
  then show ?thesis by (auto simp: isoweekday_def Let_def)
qed

lemma isoweekday_sunday: "isoweekday d = 7 \<longleftrightarrow> toordinal d mod 7 = 0"
proof -
  have "toordinal d mod 7 < 7" by simp
  then show ?thesis by (auto simp: isoweekday_def Let_def)
qed

lemma isoweekday_saturday: "isoweekday d = 6 \<longleftrightarrow> toordinal d mod 7 = 6"
  by (auto simp: isoweekday_def Let_def)

lemma week_arith:
  fixes x :: int
  defines "w \<equiv> (if x mod 7 = 0 then 7 else x mod 7)"
  shows "0 \<le> w mod 7" and "(x - w mod 7) mod 7 = 0"
    and "0 \<le> (13 - w) mod 7" and "(x + (13 - w) mod 7) mod 7 = 6"
proof -
  show "0 \<le> w mod 7" and "0 \<le> (13 - w) mod 7" by simp_all
  have wm: "w mod 7 = x mod 7" by (simp add: w_def)
  have "x - x mod 7 = 7 * (x div 7)" by (simp add: minus_mod_eq_mult_div)
  then show "(x - w mod 7) mod 7 = 0" by (simp add: wm)
  have "(x + (13 - w) mod 7) mod 7 = (x + (13 - w)) mod 7"
    by (simp add: mod_add_right_eq)
  also have "\<dots> = (x - w mod 7 + 13) mod 7"
    by (metis add_diff_eq diff_add_eq mod_diff_right_eq)
  also have "x - w mod 7 = 7 * (x div 7)" by (simp add: wm minus_mod_eq_mult_div)
  also have "(7 * (x div 7) + 13) mod 7 = 6" by simp
  finally show "(x + (13 - w) mod 7) mod 7 = 6" .
qed

lemma back_to_sunday:
  fixes d :: datetime
  defines "k \<equiv> nat (isoweekday d mod 7)"
  shows "int k = isoweekday d mod 7" and "(toordinal d - int k) mod 7 = 0"
    and "isoweekday d = 7 \<Longrightarrow> k = 0"
proof -
  have w: "isoweekday d = (if toordinal d mod 7 = 0 then 7 else toordinal d mod 7)"
    by (simp add: isoweekday_def Let_def)
  show k: "int k = isoweekday d mod 7" by (simp add: k_def)
  show "(toordinal d - int k) mod 7 = 0"
    unfolding k w by (rule week_arith)
  show "isoweekday d = 7 \<Longrightarrow> k = 0" by (simp add: k_def)
qed

lemma on_to_saturday:
  fixes d :: datetime
  defines "j \<equiv> nat ((13 - isoweekday d) mod 7)"
  shows "int j = (13 - isoweekday d) mod 7" and "(toordinal d + int j) mod 7 = 6"
    and "isoweekday d = 6 \<Longrightarrow> j = 0"
proof -
  have w: "isoweekday d = (if toordinal d mod 7 = 0 then 7 else toordinal d mod 7)"
    by (simp add: isoweekday_def Let_def)
  show j: "int j = (13 - isoweekday d) mod 7" by (simp add: j_def)
  show "(toordinal d + int j) mod 7 = 6"
    unfolding j w by (rule week_arith)
  show "isoweekday d = 6 \<Longrightarrow> j = 0" by (simp add: j_def)
qed

lemma funpow_next_week: "(next_week ^^ i) d = plus_days d (7 * i)"
proof (induction i)
  case 0
  show ?case by simp
next
  case (Suc i)
  have "(next_week ^^ Suc i) d = next_week ((next_week ^^ i) d)" by simp
  also have "\<dots> = plus_days (plus_days d (7 * i)) 7"
    by (simp only: Suc next_week_def)
  also have "\<dots> = plus_days d (7 * i + 7)" by (rule plus_days_add)
  also have "7 * i + 7 = 7 * Suc i" by simp
  finally show ?case .
qed

lemma valid_date_ordinalI:
  assumes "calendar_date d" "1 \<le> toordinal d" "toordinal d \<le> max_ordinal"
  shows "valid_date d"
  using year_in_range [OF assms] assms(1) by (simp add: valid_date_def)

lemma sundays_between_props:
  assumes "valid_date a" "valid_date b" "toordinal a \<le> toordinal b"
    "toordinal a mod 7 = 0" "toordinal b mod 7 = 6"
  defines "ds \<equiv> sundays_between a b"
  shows "ds \<noteq> []"
    and "\<forall>i<length ds. valid_date (ds ! i) \<and> toordinal (ds ! i) = toordinal a + 7 * int i
           \<and> valid_date (plus_days (ds ! i) 6)
           \<and> toordinal (plus_days (ds ! i) 6) = toordinal (ds ! i) + 6"
    and "toordinal a + 7 * int (length ds - 1) + 6 = toordinal b"
proof -
  define m where "m = (toordinal b - toordinal a) div 7"
  define n where "n = nat (m + 1)"
  have diff: "toordinal b - toordinal a = 7 * m + 6"
  proof -
    have "(toordinal b - toordinal a) mod 7 = 6"
      using assms(4,5) by presburger
    then show ?thesis
      unfolding m_def using mult_div_mod_eq [of 7 "toordinal b - toordinal a"] by simp
  qed
  have mpos: "0 \<le> m" using assms(3) by (simp add: m_def)
  then have npos: "0 < n" and nint: "int n = m + 1" by (simp_all add: n_def)
  have ca: "calendar_date a" using assms(1) by (simp add: valid_date_def)
  have sun: "isoweekday a = 7" using assms(4) by (simp add: isoweekday_sunday)
  have ds: "ds = iterate_dates n next_week a"
    by (simp add: ds_def sundays_between_def sun Let_def n_def m_def)
  have len: "length ds = n" by (simp add: ds length_iterate_dates)
  have nth: "ds ! i = plus_days a (7 * i)" if "i < n" for i
    using that by (simp add: ds nth_iterate_dates funpow_next_week)
  show "ds \<noteq> []" using len npos by auto
  show "\<forall>i<length ds. valid_date (ds ! i) \<and> toordinal (ds ! i) = toordinal a + 7 * int i
           \<and> valid_date (plus_days (ds ! i) 6)
           \<and> toordinal (plus_days (ds ! i) 6) = toordinal (ds ! i) + 6"
  proof (intro allI impI)
    fix i assume "i < length ds"
    then have i: "i < n" by (simp add: len)
    then have im: "int i \<le> m" using nint by simp
    note bounds = valid_date_ordinal [OF assms(1)] valid_date_ordinal [OF assms(2)]
    have p: "calendar_date (plus_days a (7 * i))"
      "toordinal (plus_days a (7 * i)) = toordinal a + 7 * int i"
      using plus_days_calendar [OF ca, of "7 * i"] by simp_all
    have q: "calendar_date (plus_days (plus_days a (7 * i)) 6)"
      "toordinal (plus_days (plus_days a (7 * i)) 6) = toordinal a + 7 * int i + 6"
      using plus_days_calendar [OF p(1), of 6] p(2) by simp_all
    have v1: "valid_date (plus_days a (7 * i))"
      using p(1) bounds im diff by (intro valid_date_ordinalI) (simp_all add: p(2))
    have v2: "valid_date (plus_days (plus_days a (7 * i)) 6)"
      using q(1) bounds im diff by (intro valid_date_ordinalI) (simp_all add: q(2))
    from v1 v2 p(2) q(2)
    show "valid_date (ds ! i) \<and> toordinal (ds ! i) = toordinal a + 7 * int i
           \<and> valid_date (plus_days (ds ! i) 6)
           \<and> toordinal (plus_days (ds ! i) 6) = toordinal (ds ! i) + 6"
      by (simp add: nth [OF i])
  qed
  show "toordinal a + 7 * int (length ds - 1) + 6 = toordinal b"
    using diff nint npos by (simp add: len)
qed

lemma timestamp_range_ordinals:
  "1 \<le> toordinal Timestamp_min" "toordinal Timestamp_max \<le> max_ordinal"
  by code_simp+

lemma weekly_batches_sundays:
  assumes "\<forall>d \<in> set ds. isoweekday d = 7 \<and> toordinal d + 6 \<le> toordinal Timestamp_max"
  shows "weekly_batches ds
    = Inr (map (\<lambda>d. \<lparr>start_date = strftime d, end_date = strftime (plus_days d 6)\<rparr>) ds)"
  using assms
proof (induction ds)
  case Nil
  show ?case by simp
next
  case (Cons d ds)
  from Cons.prems have "isoweekday d = 7" "toordinal d + 6 \<le> toordinal Timestamp_max"
    by simp_all
  then have "weekly_batch d
      = Inr \<lparr>start_date = strftime d, end_date = strftime (plus_days d 6)\<rparr>"
    by (simp add: weekly_batch_def timestamp_add_def)
  with Cons show ?case by simp
qed

lemma split_weekly_eq:
  assumes "strptime start_str = Inr s" "strptime end_str = Inr e"
    "toordinal s \<le> toordinal e"
    "toordinal Timestamp_min \<le> toordinal s - isoweekday s mod 7"
    "toordinal e + (13 - isoweekday e) mod 7 \<le> toordinal Timestamp_max"
    "isoweekday s = 7 \<longrightarrow> CHR '' '' \<notin> set start_str"
    "isoweekday e = 6 \<longrightarrow> CHR '' '' \<notin> set end_str"
  defines "a \<equiv> minus_days s (nat (isoweekday s mod 7))"
    and "b \<equiv> plus_days e (nat ((13 - isoweekday e) mod 7))"
  shows "split_weekly start_str end_str s e = weekly_batches (sundays_between a b)"
    and "valid_date a" and "valid_date b"
    and "toordinal a \<le> toordinal s" and "toordinal e \<le> toordinal b"
    and "toordinal a mod 7 = 0" and "toordinal b mod 7 = 6"
    and "toordinal b \<le> toordinal Timestamp_max"
proof -
  have vs: "valid_date s" and ve: "valid_date e"
    using assms(1,2) by (simp_all add: strptime_valid)
  then have cs: "calendar_date s" and ce: "calendar_date e"
    by (simp_all add: valid_date_def)
  note k = back_to_sunday [of s] and j = on_to_saturday [of e]
  have lo: "isoweekday s mod 7 < toordinal s"
    using assms(4) timestamp_range_ordinals(1) by simp
  have hi: "toordinal e + (13 - isoweekday e) mod 7 \<le> max_ordinal"
    using assms(5) timestamp_range_ordinals(2) by simp
  have ta: "toordinal a = toordinal s - isoweekday s mod 7" and ca: "calendar_date a"
    using minus_days_calendar [OF cs, of "nat (isoweekday s mod 7)"] k(1)
    by (simp_all add: a_def)
  have tb: "toordinal b = toordinal e + (13 - isoweekday e) mod 7" and cb: "calendar_date b"
    using plus_days_calendar [OF ce, of "nat ((13 - isoweekday e) mod 7)"] j(1)
    by (simp_all add: b_def)
  have kpos: "0 \<le> isoweekday s mod 7" and jpos: "0 \<le> (13 - isoweekday e) mod 7"
    by simp_all
  show va: "valid_date a"
    using ca lo valid_date_ordinal [OF vs] kpos
    by (intro valid_date_ordinalI) (simp_all add: ta)
  show vb: "valid_date b"
    using cb hi valid_date_ordinal [OF ve] jpos
    by (intro valid_date_ordinalI) (simp_all add: tb)
  show as: "toordinal a \<le> toordinal s" using kpos by (simp add: ta)
  show eb: "toordinal e \<le> toordinal b" using jpos by (simp add: tb)
  show "toordinal a mod 7 = 0" using k(1,2) by (simp add: ta)
  show "toordinal b mod 7 = 6" using j(1,2) by (simp add: tb)
  show "toordinal b \<le> toordinal Timestamp_max" using assms(5) by (simp add: tb)
  have ra: "in_timestamp_range a"
    using assms(3,4,5) as eb by (simp add: in_timestamp_range_def ta tb)
  have rb: "in_timestamp_range b"
    using assms(3,4,5) as eb by (simp add: in_timestamp_range_def ta tb)
  have sub: "timedelta_sub s (nat (isoweekday s mod 7)) = Inr a"
    using lo k(1) by (simp add: timedelta_sub_def a_def)
  have add: "timedelta_add e (nat ((13 - isoweekday e) mod 7)) = Inr b"
    using hi j(1) by (simp add: timedelta_add_def b_def)
  have new_start: "(if isoweekday s \<noteq> 7
            then map_sum id strftime (timedelta_sub s (nat (isoweekday s mod 7)))
            else Inr start_str) = Inr (if isoweekday s \<noteq> 7 then strftime a else start_str)"
    by (simp add: sub)
  have new_end: "(if isoweekday e \<noteq> 6
            then map_sum id strftime (timedelta_add e (nat ((13 - isoweekday e) mod 7)))
            else Inr end_str) = Inr (if isoweekday e \<noteq> 6 then strftime b else end_str)"
    by (simp add: add)
  have pa: "parse_timestamp (if isoweekday s \<noteq> 7 then strftime a else start_str) = Inr a"
  proof (cases "isoweekday s = 7")
    case True
    then have "a = s" by (simp add: a_def)
    with True assms(1,6) ra parse_timestamp_strptime [of start_str s] show ?thesis by simp
  next
    case False
    with parse_timestamp_strftime [OF ca ra] show ?thesis by simp
  qed
  have pb: "parse_timestamp (if isoweekday e \<noteq> 6 then strftime b else end_str) = Inr b"
  proof (cases "isoweekday e = 6")
    case True
    then have "b = e" by (simp add: b_def)
    with True assms(2,7) rb parse_timestamp_strptime [of end_str e] show ?thesis by simp
  next
    case False
    with parse_timestamp_strftime [OF cb rb] show ?thesis by simp
  qed
  show "split_weekly start_str end_str s e = weekly_batches (sundays_between a b)"
    unfolding split_weekly_def new_start new_end
    by (simp add: date_range_def pa pb)
qed

text \<open>
  Claim C5 as stated fails, in three ways. 0001-01-01 is a Monday, the planner moves the
  start of a weekly request back by one day, and no datetime exists before 0001-01-01:
  the subtraction raises OverflowError. The \<^verbatim>\<open>weekly\<close> branch hands the Sunday on or
  before the start and the Saturday on or after the end to pandas; for a request in the
  year 1500 they are valid dates, but no timestamp of pandas exists before 1677-09-22,
  and \<^verbatim>\<open>pd.date_range\<close> raises OutOfBoundsDatetime. A start date that is a Sunday and
  an end date that is a Saturday go to pandas as the caller wrote them; \<open>strptime\<close>
  accepts a blank in front of a one-digit day, the parser of pandas does not, and
  \<^verbatim>\<open>pd.date_range\<close> raises DateParseError. No range is returned in any of the three
  cases.
\<close>

theorem split_weekly_raises:
  "ga_api_split_request_date_batch_freq ''0001-01-01'' ''0001-01-02'' (Some ''weekly'')
     = Inl OverflowError
   \<and> ga_api_split_request_date_batch_freq ''1500-01-01'' ''1500-01-02'' (Some ''weekly'')
     = Inl OutOfBoundsDatetime
   \<and> ga_api_split_request_date_batch_freq ''2023-01- 1'' ''2023-01- 7'' (Some ''weekly'')
     = Inl DateParseError"
  by code_simp

text \<open>
  Claim C5 as amended. Let both date strings parse, to the dates \<open>s\<close> and \<open>e\<close>, with
  \<open>s\<close> not after \<open>e\<close>; let the Sunday on or before \<open>s\<close> and the Saturday on or after
  \<open>e\<close> be days of the timestamp range of pandas (1677-09-22 to 2262-04-11, inside the
  years of a datetime); and let the string of a start date that is a Sunday, and the
  string of an end date that is a Saturday, have no blank in front of the day. With
  frequency \<^verbatim>\<open>weekly\<close> the planner returns one range per date of a list \<open>ds\<close>: each
  date is a valid Sunday and its range ends on the valid date six days later, a Saturday;
  each next date is seven days after the one before; every day from \<open>s\<close> to \<open>e\<close> lies
  in one of the ranges. And the planner returns exactly the two ranges of the example.
\<close>

theorem split_weekly_sunday_to_saturday:
  assumes "strptime start_str = Inr s" "strptime end_str = Inr e"
    "toordinal s \<le> toordinal e"
    "toordinal Timestamp_min \<le> toordinal s - isoweekday s mod 7"
    "toordinal e + (13 - isoweekday e) mod 7 \<le> toordinal Timestamp_max"
    "isoweekday s = 7 \<longrightarrow> CHR '' '' \<notin> set start_str"
    "isoweekday e = 6 \<longrightarrow> CHR '' '' \<notin> set end_str"
  shows "(\<exists>ds. ga_api_split_request_date_batch_freq start_str end_str (Some ''weekly'')
             = Inr (map (\<lambda>d. \<lparr>start_date = strftime d, end_date = strftime (plus_days d 6)\<rparr>) ds)
           \<and> ds \<noteq> []
           \<and> (\<forall>d \<in> set ds. valid_date d \<and> isoweekday d = 7
                 \<and> valid_date (plus_days d 6) \<and> isoweekday (plus_days d 6) = 6
                 \<and> toordinal (plus_days d 6) = toordinal d + 6)
           \<and> (\<forall>i. Suc i < length ds \<longrightarrow> toordinal (ds ! Suc i) = toordinal (ds ! i) + 7)
           \<and> (\<forall>x. toordinal s \<le> x \<and> x \<le> toordinal e \<longrightarrow>
                 (\<exists>d \<in> set ds. toordinal d \<le> x \<and> x \<le> toordinal (plus_days d 6))))
       \<and> ga_api_split_request_date_batch_freq ''2023-01-01'' ''2023-01-14'' (Some ''weekly'')
           = Inr [\<lparr>start_date = ''2023-01-01'', end_date = ''2023-01-07''\<rparr>,
                  \<lparr>start_date = ''2023-01-08'', end_date = ''2023-01-14''\<rparr>]"
proof -
  define a where "a = minus_days s (nat (isoweekday s mod 7))"
  define b where "b = plus_days e (nat ((13 - isoweekday e) mod 7))"
  define ds where "ds = sundays_between a b"
  note w = split_weekly_eq [OF assms, folded a_def b_def]
  from w(4,5) assms(3) have ab: "toordinal a \<le> toordinal b" by simp
  note p = sundays_between_props [OF w(2,3) ab w(6,7), folded ds_def]
  have el: "valid_date d \<and> isoweekday d = 7
                 \<and> valid_date (plus_days d 6) \<and> isoweekday (plus_days d 6) = 6
                 \<and> toordinal (plus_days d 6) = toordinal d + 6"
    if "d \<in> set ds" for d
  proof -
    from that obtain i where i: "i < length ds" "d = ds ! i"
      by (auto simp: in_set_conv_nth)
    with p(2) have d: "valid_date d" "toordinal d = toordinal a + 7 * int i"
      "valid_date (plus_days d 6)" "toordinal (plus_days d 6) = toordinal d + 6"
      by simp_all
    have "toordinal d mod 7 = 0" using w(6) by (simp add: d(2))
    moreover have "toordinal (plus_days d 6) mod 7 = 6"
      using w(6) by (simp add: d(2,4)) presburger
    ultimately show ?thesis
      using d by (simp add: isoweekday_sunday isoweekday_saturday)
  qed
  have "toordinal d + 6 \<le> toordinal Timestamp_max" if "d \<in> set ds" for d
  proof -
    from that obtain i where i: "i < length ds" "d = ds ! i"
      by (auto simp: in_set_conv_nth)
    with p(2) have "toordinal d = toordinal a + 7 * int i" by simp
    moreover from i(1) have "int i \<le> int (length ds - 1)" by simp
    ultimately have "toordinal d + 6 \<le> toordinal b" using p(3) by simp
    with w(8) show ?thesis by simp
  qed
  with el have "weekly_batches ds
      = Inr (map (\<lambda>d. \<lparr>start_date = strftime d, end_date = strftime (plus_days d 6)\<rparr>) ds)"
    by (intro weekly_batches_sundays) simp
  then have split: "ga_api_split_request_date_batch_freq start_str end_str (Some ''weekly'')
      = Inr (map (\<lambda>d. \<lparr>start_date = strftime d, end_date = strftime (plus_days d 6)\<rparr>) ds)"
    by (simp add: ga_api_split_request_date_batch_freq_def assms(1,2) w(1) ds_def)
  have apart: "\<forall>i. Suc i < length ds \<longrightarrow> toordinal (ds ! Suc i) = toordinal (ds ! i) + 7"
    using p(2) by simp
  have cover: "\<exists>d \<in> set ds. toordinal d \<le> x \<and> x \<le> toordinal (plus_days d 6)"
    if x: "toordinal s \<le> x" "x \<le> toordinal e" for x
  proof -
    have step: "\<forall>i. Suc i < length ds \<longrightarrow>
        toordinal (ds ! Suc i) = toordinal (plus_days (ds ! i) 6) + 1"
      using p(2) by simp
    have pos: "0 < length ds" using p(1) by simp
    have first: "toordinal (ds ! 0) \<le> x"
      using p(2) pos w(4) x(1) by simp
    from pos have "length ds - 1 < length ds" by simp
    with p(2) have "toordinal (plus_days (ds ! (length ds - 1)) 6)
        = toordinal a + 7 * int (length ds - 1) + 6" by simp
    then have "toordinal (plus_days (ds ! (length ds - 1)) 6) = toordinal b"
      by (simp only: p(3))
    with w(5) x(2) have final: "x \<le> toordinal (plus_days (ds ! (length ds - 1)) 6)" by simp
    from contiguous_cover [of "length ds" "\<lambda>i. toordinal (ds ! i)"
        "\<lambda>i. toordinal (plus_days (ds ! i) 6)" x, OF step pos first final]
    obtain i where "i < length ds" "toordinal (ds ! i) \<le> x"
      "x \<le> toordinal (plus_days (ds ! i) 6)" by blast
    then show ?thesis using nth_mem by blast
  qed
  have example: "ga_api_split_request_date_batch_freq ''2023-01-01'' ''2023-01-14''
      (Some ''weekly'')
           = Inr [\<lparr>start_date = ''2023-01-01'', end_date = ''2023-01-07''\<rparr>,
                  \<lparr>start_date = ''2023-01-08'', end_date = ''2023-01-14''\<rparr>]"
    by code_simp
  from split p(1) el apart cover example show ?thesis by blast
qed

theorem split_weekly_sunday_to_saturday_witness:
  "\<exists>ds. ga_api_split_request_date_batch_freq ''2023-01-03'' ''2023-01-18'' (Some ''weekly'')
             = Inr (map (\<lambda>d. \<lparr>start_date = strftime d, end_date = strftime (plus_days d 6)\<rparr>) ds)
           \<and> ds \<noteq> []"
proof -
  have s: "strptime ''2023-01-03'' = Inr (Datetime 2023 1 3)"
    and e: "strptime ''2023-01-18'' = Inr (Datetime 2023 1 18)"
    by code_simp+
  have le: "toordinal (Datetime 2023 1 3) \<le> toordinal (Datetime 2023 1 18)"
    by code_simp
  have lo: "toordinal Timestamp_min
      \<le> toordinal (Datetime 2023 1 3) - isoweekday (Datetime 2023 1 3) mod 7"
    by code_simp
  have hi: "toordinal (Datetime 2023 1 18) + (13 - isoweekday (Datetime 2023 1 18)) mod 7
      \<le> toordinal Timestamp_max"
    by code_simp
  have sb: "isoweekday (Datetime 2023 1 3) = 7 \<longrightarrow> CHR '' '' \<notin> set ''2023-01-03''"
    and eb: "isoweekday (Datetime 2023 1 18) = 6 \<longrightarrow> CHR '' '' \<notin> set ''2023-01-18''"
    by simp_all
  from split_weekly_sunday_to_saturday [OF s e le lo hi sb eb] show ?thesis
    by (elim conjE exE) blast
qed

section \<open>The retry loop of one job\<close>

lemma state_sleep_and_retry [simp]: "state (sleep_and_retry t) = state t"
  by (simp add: sleep_and_retry_def)

lemma state_after_loop: "state (after_loop t) \<noteq> Running"
  by (simp add: after_loop_def split: option.split)

lemma task_inv_new: "task_inv (new_task p a)"
  by (simp add: task_inv_def new_task_def retry_def)

lemma task_inv_resume:
  assumes "task_inv t"
  shows "task_inv (resume t out)"
proof (cases "state t = Running")
  case False
  with assms show ?thesis by (simp add: resume_def)
next
  case True
  with assms have t: "retries t = posts t" "posts t < retry" "\<not> response_status t"
      "slept t = retries t"
    by (simp_all add: task_inv_def)
  show ?thesis
  proof (cases out)
    case (PostError e)
    with True t show ?thesis
      by (simp add: resume_def loop_body_def task_inv_def Let_def retry_def)
  next
    case ClientConnectionError
    with True t show ?thesis
      by (auto simp: resume_def loop_body_def task_inv_def loop_head_def sleep_and_retry_def
          after_loop_def retry_def Let_def split: option.split)
  next
    case (Response ok st rt)
    with True t show ?thesis
      by (cases rt)
        (auto simp: resume_def loop_body_def task_inv_def loop_head_def sleep_and_retry_def
          after_loop_def retry_def Let_def split: option.split)
  qed
qed

lemma task_inv_run: "task_inv t \<Longrightarrow> task_inv (foldl resume t outs)"
  by (induction outs arbitrary: t) (simp_all add: task_inv_resume)

lemma posts_resume_running:
  assumes "state t = Running" "state (resume t out) = Running"
  shows "posts (resume t out) = posts t + 1"
proof (cases out)
  case (PostError e)
  with assms show ?thesis by (simp add: resume_def loop_body_def Let_def)
next
  case ClientConnectionError
  with assms show ?thesis
    by (auto simp: resume_def loop_body_def loop_head_def sleep_and_retry_def after_loop_def
        Let_def split: option.splits if_splits)
next
  case (Response ok st rt)
  with assms show ?thesis
    by (cases rt)
      (auto simp: resume_def loop_body_def loop_head_def sleep_and_retry_def after_loop_def
        Let_def split: option.splits if_splits)
qed

lemma resume_finished: "state t \<noteq> Running \<Longrightarrow> foldl resume t outs = t"
  by (induction outs) (simp_all add: resume_def)

lemma running_posts_length:
  "state t = Running \<Longrightarrow> state (foldl resume t outs) = Running
     \<Longrightarrow> posts (foldl resume t outs) = posts t + length outs"
proof (induction outs arbitrary: t)
  case Nil
  then show ?case by simp
next
  case (Cons out outs)
  show ?case
  proof (cases "state (resume t out) = Running")
    case True
    with Cons show ?thesis by (simp add: posts_resume_running)
  next
    case False
    with Cons.prems show ?thesis by (simp add: resume_finished)
  qed
qed

text \<open>
  The job makes at most three requests, and after the outcomes of three requests it has
  finished, whatever they are.
\<close>

lemma at_most_three_posts: "posts (aiohttp_request_to_function p outs) \<le> 3"
  using task_inv_run [OF task_inv_new, of p 0 outs]
  by (simp add: aiohttp_request_to_function_def task_inv_def retry_def)

lemma finished_after_three:
  assumes "3 \<le> length outs"
  shows "state (aiohttp_request_to_function p outs) \<noteq> Running"
proof
  assume r: "state (aiohttp_request_to_function p outs) = Running"
  have "state (new_task p 0) = Running" by (simp add: new_task_def)
  from running_posts_length [OF this] r
  have "posts (aiohttp_request_to_function p outs) = length outs"
    by (simp add: aiohttp_request_to_function_def new_task_def)
  moreover have "posts (aiohttp_request_to_function p outs) < 3"
    using task_inv_run [OF task_inv_new, of p 0 outs] r
    by (simp add: aiohttp_request_to_function_def task_inv_def retry_def)
  ultimately show False using assms by simp
qed

text \<open>
  A response that is \<^verbatim>\<open>ok\<close> and whose text can be read ends the job at once, with the
  text as its result.
\<close>

lemma ok_response_returns:
  assumes "state t = Running"
  shows "state (resume t (Response True st (Text b))) = Done (ResponseText b)"
  using assms by (simp add: resume_def loop_body_def Let_def)

text \<open>
  Claim C3, at the input where the code leaves it: three requests that all end in a
  connection error. The job has made its three requests, one second apart, and then
  raises UnboundLocalError where the claim has it return a failure record: no response
  was ever bound, and the record is built from \<^verbatim>\<open>response.status\<close>.
\<close>

theorem three_connection_errors_raise:
  "state (aiohttp_request_to_function sample_payload
            [ClientConnectionError, ClientConnectionError, ClientConnectionError])
     = Failed UnboundLocalError
   \<and> posts (aiohttp_request_to_function sample_payload
            [ClientConnectionError, ClientConnectionError, ClientConnectionError]) = 3
   \<and> slept (aiohttp_request_to_function sample_payload
            [ClientConnectionError, ClientConnectionError, ClientConnectionError]) = 3"
  by (simp add: aiohttp_request_to_function_def resume_def loop_body_def loop_head_def
      sleep_and_retry_def after_loop_def new_task_def retry_def Let_def)

text \<open>
  For comparison, three responses with a status that is not \<^verbatim>\<open>ok\<close>: the failure
  record is returned, with the retry count in its message and the last status.
\<close>

lemma three_bad_statuses_return:
  "state (aiohttp_request_to_function sample_payload
            [Response False 500 (Text Malformed), Response False 502 (Text Malformed),
             Response False 503 (Text Malformed)])
     = Done (FailureDict ''Unable to load data after 3 retries'' sample_payload 503)"
  by (simp add: aiohttp_request_to_function_def resume_def loop_body_def loop_head_def
      sleep_and_retry_def after_loop_def new_task_def retry_def digit_char_def Let_def)

text \<open>
  A response that is \<^verbatim>\<open>ok\<close> but whose text cannot be read for a connection error
  leaves the loop on its first pass: \<^verbatim>\<open>response_status\<close> is already \<^verbatim>\<open>True\<close>.
\<close>

lemma unread_text_ends_retries:
  "state (aiohttp_request_to_function sample_payload [Response True 200 TextConnectionError])
     = Done (FailureDict ''Unable to load data after 1 retries'' sample_payload 200)"
  by (simp add: aiohttp_request_to_function_def resume_def loop_body_def loop_head_def
      sleep_and_retry_def after_loop_def new_task_def retry_def digit_char_def Let_def)

section \<open>The task group\<close>

lemma create_task_eq:
  "create_task g p =
     Some (g\<lparr>tasks := tasks g @ [new_task p (length (limiters g))],
            limiters := limiters g @ [\<lparr>max_rate = 600, time_period = 60, level = 1\<rparr>]\<rparr>)"
  by (simp add: create_task_def acquire_def AsyncLimiter_def)

text \<open>
  Creating the tasks never waits: every task gets a limiter of its own, at a new address,
  and takes its first and only unit of it.
\<close>

lemma create_tasks_eq:
  "\<exists>g'. create_tasks g ps = Some g'
     \<and> length (tasks g') = length (tasks g) + length ps
     \<and> (\<forall>i<length (tasks g). tasks g' ! i = tasks g ! i)
     \<and> (\<forall>i<length ps. tasks g' ! (length (tasks g) + i)
                          = new_task (ps ! i) (length (limiters g) + i))
     \<and> limiters g' = limiters g
          @ replicate (length ps) \<lparr>max_rate = 600, time_period = 60, level = 1\<rparr>
     \<and> task_results g' = task_results g"
proof (induction ps arbitrary: g)
  case Nil
  show ?case by simp
next
  case (Cons p ps)
  define g1 where "g1 = g\<lparr>tasks := tasks g @ [new_task p (length (limiters g))],
            limiters := limiters g @ [\<lparr>max_rate = 600, time_period = 60, level = 1\<rparr>]\<rparr>"
  from Cons.IH [of g1] obtain g' where g': "create_tasks g1 ps = Some g'"
    "length (tasks g') = length (tasks g1) + length ps"
    "\<forall>i<length (tasks g1). tasks g' ! i = tasks g1 ! i"
    "\<forall>i<length ps. tasks g' ! (length (tasks g1) + i)
                          = new_task (ps ! i) (length (limiters g1) + i)"
    "limiters g' = limiters g1
          @ replicate (length ps) \<lparr>max_rate = 600, time_period = 60, level = 1\<rparr>"
    "task_results g' = task_results g1"
    by blast
  have 1: "create_tasks g (p # ps) = Some g'"
    using g'(1) by (simp add: create_task_eq g1_def)
  have 2: "length (tasks g') = length (tasks g) + length (p # ps)"
    using g'(2) by (simp add: g1_def)
  have 3: "\<forall>i<length (tasks g). tasks g' ! i = tasks g ! i"
    using g'(3) by (simp add: g1_def nth_append)
  have 4: "\<forall>i<length (p # ps). tasks g' ! (length (tasks g) + i)
                          = new_task ((p # ps) ! i) (length (limiters g) + i)"
  proof (intro allI impI)
    fix i assume i: "i < length (p # ps)"
    show "tasks g' ! (length (tasks g) + i)
                          = new_task ((p # ps) ! i) (length (limiters g) + i)"
    proof (cases i)
      case 0
      then show ?thesis using g'(3) by (simp add: g1_def nth_append)
    next
      case (Suc j)
      with i have "j < length ps" by simp
      with g'(4) have "tasks g' ! (length (tasks g1) + j)
                          = new_task (ps ! j) (length (limiters g1) + j)" by blast
      then show ?thesis by (simp add: Suc g1_def)
    qed
  qed
  have 5: "limiters g' = limiters g
          @ replicate (length (p # ps)) \<lparr>max_rate = 600, time_period = 60, level = 1\<rparr>"
    using g'(5) by (simp add: g1_def)
  have 6: "task_results g' = task_results g"
    using g'(6) by (simp add: g1_def)
  from 1 2 3 4 5 6 show ?case by blast
qed

lemma created:
  obtains g where "create_tasks empty_group ps = Some g"
    "length (tasks g) = length ps"
    "\<forall>i<length ps. tasks g ! i = new_task (ps ! i) i"
    "limiters g = replicate (length ps) \<lparr>max_rate = 600, time_period = 60, level = 1\<rparr>"
    "task_results g = []"
  using create_tasks_eq [of empty_group ps] by (auto simp: empty_group_def)

lemma group_invD:
  assumes "group_inv g"
  shows "distinct (task_results g)"
    and "set (task_results g) = {i. i < length (tasks g) \<and> state (tasks g ! i) \<noteq> Running}"
    and "(\<exists>t \<in> set (tasks g). has_raised (state t))
          \<longrightarrow> (\<forall>t \<in> set (tasks g). state t \<noteq> Running)"
  using assms unfolding group_inv_def by blast+

lemma group_invI:
  assumes "distinct (task_results g)"
    and "set (task_results g) = {i. i < length (tasks g) \<and> state (tasks g ! i) \<noteq> Running}"
    and "(\<exists>t \<in> set (tasks g). has_raised (state t))
          \<longrightarrow> (\<forall>t \<in> set (tasks g). state t \<noteq> Running)"
  shows "group_inv g"
  using assms unfolding group_inv_def by blast

lemma group_inv_created:
  assumes "create_tasks empty_group ps = Some g"
  shows "group_inv g" and "length (tasks g) = length ps"
proof -
  obtain g' where g': "create_tasks empty_group ps = Some g'"
    "length (tasks g') = length ps"
    "\<forall>i<length ps. tasks g' ! i = new_task (ps ! i) i"
    "task_results g' = []"
    by (rule created)
  with assms have eq: "g' = g" by simp
  have run: "state t = Running" if "t \<in> set (tasks g)" for t
  proof -
    from that obtain i where "i < length (tasks g)" "t = tasks g ! i"
      by (auto simp: in_set_conv_nth)
    with g'(2,3) eq show ?thesis by (simp add: new_task_def)
  qed
  then have "\<not> (\<exists>t \<in> set (tasks g). has_raised (state t))" by auto
  moreover have "{i. i < length (tasks g) \<and> state (tasks g ! i) \<noteq> Running} = {}"
    using run by auto
  ultimately show "group_inv g"
    using g'(4) eq by (simp add: group_inv_def)
  show "length (tasks g) = length ps" using g'(2) eq by simp
qed

lemma state_cancel: "state (cancel t) \<noteq> Running"
  by (simp add: cancel_def)

lemma has_raised_cancel: "has_raised (state (cancel t)) = has_raised (state t)"
  by (simp add: cancel_def)

lemma group_inv_abort:
  assumes "distinct (task_results g)"
    "set (task_results g) = {i. i < length (tasks g) \<and> state (tasks g ! i) \<noteq> Running}"
  shows "group_inv (abort g)"
proof -
  let ?new = "filter (\<lambda>i. state (tasks g ! i) = Running) [0..<length (tasks g)]"
  have d: "distinct (task_results g @ ?new)"
    using assms by auto
  have s: "set (task_results g @ ?new) = {i. i < length (tasks g)}"
    using assms(2) by auto
  have n: "\<forall>t \<in> set (map cancel (tasks g)). state t \<noteq> Running"
    by (simp add: state_cancel)
  have "{i. i < length (map cancel (tasks g)) \<and> state (map cancel (tasks g) ! i) \<noteq> Running}
      = {i. i < length (tasks g)}"
    by (auto simp: state_cancel)
  with d s n show ?thesis
    by (simp add: group_inv_def abort_def)
qed

lemma length_tasks_abort: "length (tasks (abort g)) = length (tasks g)"
  by (simp add: abort_def)

lemma group_inv_deliver:
  assumes "group_inv g"
  shows "group_inv (deliver g ev)"
proof -
  obtain i out where ev: "ev = (i, out)" by (cases ev)
  show ?thesis
  proof (cases "i < length (tasks g) \<and> state (tasks g ! i) = Running")
    case False
    with assms ev show ?thesis by (auto simp: deliver_def)
  next
    case True
    then have i: "i < length (tasks g)" and r: "state (tasks g ! i) = Running" by simp_all
    define t where "t = resume (tasks g ! i) out"
    define g' where "g' = g\<lparr>tasks := (tasks g)[i := t]\<rparr>"
    note dist = group_invD(1) [OF assms] and sets = group_invD(2) [OF assms]
      and rais = group_invD(3) [OF assms]
    from i r have "tasks g ! i \<in> set (tasks g)" by simp
    with r rais have none: "\<forall>u \<in> set (tasks g). \<not> has_raised (state u)" by metis
    have inot: "i \<notin> set (task_results g)" using sets r by simp
    show ?thesis
    proof (cases "state t = Running")
      case True
      have same: "(state ((tasks g)[i := t] ! j) \<noteq> Running) = (state (tasks g ! j) \<noteq> Running)"
        if "j < length (tasks g)" for j
        using that True r by (cases "j = i") simp_all
      have "{j. j < length (tasks g) \<and> state ((tasks g)[i := t] ! j) \<noteq> Running}
          = {j. j < length (tasks g) \<and> state (tasks g ! j) \<noteq> Running}"
        using same by blast
      then have "set (task_results g')
          = {j. j < length (tasks g') \<and> state (tasks g' ! j) \<noteq> Running}"
        by (simp add: g'_def sets)
      moreover have "\<forall>u \<in> set (tasks g'). \<not> has_raised (state u)"
      proof
        fix u assume "u \<in> set (tasks g')"
        then have "u = t \<or> u \<in> set (tasks g)"
          using set_update_subset_insert [of "tasks g" i t] by (auto simp: g'_def)
        with none True show "\<not> has_raised (state u)" by auto
      qed
      ultimately have "group_inv g'"
        using dist by (simp add: group_inv_def g'_def)
      moreover have "deliver g ev = g'"
        using True i r by (simp add: deliver_def ev t_def [symmetric] g'_def Let_def)
      ultimately show ?thesis by simp
    next
      case fin: False
      define g'' where "g'' = g'\<lparr>task_results := task_results g' @ [i]\<rparr>"
      have d'': "distinct (task_results g'')"
        using dist inot by (simp add: g''_def g'_def)
      have upd: "(state ((tasks g)[i := t] ! j) \<noteq> Running)
          = (j = i \<or> state (tasks g ! j) \<noteq> Running)"
        if "j < length (tasks g)" for j
        using that fin r by (cases "j = i") simp_all
      have "{j. j < length (tasks g) \<and> state ((tasks g)[i := t] ! j) \<noteq> Running}
          = insert i {j. j < length (tasks g) \<and> state (tasks g ! j) \<noteq> Running}"
        using upd i by blast
      then have s'': "set (task_results g'')
          = {j. j < length (tasks g'') \<and> state (tasks g'' ! j) \<noteq> Running}"
        by (simp add: g''_def g'_def sets)
      show ?thesis
      proof (cases "has_raised (state t)")
        case True
        then obtain e where e: "state t = Failed e" by (cases "state t") simp_all
        have "deliver g ev = abort g''"
          using i r e by (simp add: deliver_def ev t_def [symmetric] g'_def g''_def Let_def)
        with group_inv_abort [OF d'' s''] show ?thesis by simp
      next
        case False
        have "\<forall>u \<in> set (tasks g''). \<not> has_raised (state u)"
        proof
          fix u assume "u \<in> set (tasks g'')"
          then have "u = t \<or> u \<in> set (tasks g)"
            using set_update_subset_insert [of "tasks g" i t] by (auto simp: g'_def g''_def)
          with none False show "\<not> has_raised (state u)" by auto
        qed
        with d'' s'' have "group_inv g''" by (simp add: group_inv_def)
        moreover have "deliver g ev = g''"
          using i r fin False
          by (cases "state t")
            (simp_all add: deliver_def ev t_def [symmetric] g'_def g''_def Let_def)
        ultimately show ?thesis by simp
      qed
    qed
  qed
qed

lemma length_tasks_deliver: "length (tasks (deliver g ev)) = length (tasks g)"
  by (cases ev) (auto simp: deliver_def Let_def abort_def split: task_state.split)

lemma group_inv_run:
  "group_inv g \<Longrightarrow> group_inv (foldl deliver g schedule)
     \<and> length (tasks (foldl deliver g schedule)) = length (tasks g)"
  by (induction schedule arbitrary: g) (simp_all add: group_inv_deliver length_tasks_deliver)

lemma run_group_inv:
  obtains g where "run_group ps schedule = Some g" "group_inv g"
    "length (tasks g) = length ps"
proof -
  obtain g0 where g0: "create_tasks empty_group ps = Some g0"
    by (rule created)
  from group_inv_created [OF g0] group_inv_run [of g0 schedule]
  have "group_inv (foldl deliver g0 schedule)"
    "length (tasks (foldl deliver g0 schedule)) = length ps" by simp_all
  moreover have "run_group ps schedule = Some (foldl deliver g0 schedule)"
    using g0 by (simp add: run_group_def empty_group_def)
  ultimately show thesis by (rule that [rotated])
qed

text \<open>
  A group of one task is \<^verbatim>\<open>aiohttp_request_to_function\<close> run on its own.
\<close>

lemma single_task_run:
  assumes "tasks g = [t]"
  shows "tasks (foldl deliver g (map (Pair 0) outs)) = [foldl resume t outs]"
  using assms
proof (induction outs arbitrary: g t)
  case Nil
  then show ?case by simp
next
  case (Cons out outs)
  have "tasks (deliver g (0, out)) = [resume t out]"
  proof (cases "state t = Running")
    case False
    with Cons.prems show ?thesis by (simp add: deliver_def resume_def)
  next
    case True
    show ?thesis
    proof (cases "state (resume t out)")
      case (Failed e)
      with True Cons.prems show ?thesis
        by (simp add: deliver_def Let_def abort_def cancel_def)
    qed (use True Cons.prems in \<open>simp_all add: deliver_def Let_def\<close>)
  qed
  from Cons.IH [OF this] show ?case by simp
qed

lemma group_of_one:
  "map_option tasks (run_group [p] (map (Pair 0) outs))
     = Some [aiohttp_request_to_function p outs]"
proof -
  define g where "g = empty_group\<lparr>tasks := [new_task p 0],
            limiters := [\<lparr>max_rate = 600, time_period = 60, level = 1\<rparr>]\<rparr>"
  have "create_tasks empty_group [p] = Some g"
    by (simp add: create_task_eq empty_group_def g_def)
  then have "run_group [p] (map (Pair 0) outs) = Some (foldl deliver g (map (Pair 0) outs))"
    by (simp only: run_group_def option.map)
  moreover have "tasks g = [new_task p 0]" by (simp add: g_def)
  from single_task_run [OF this, of outs]
  have "tasks (foldl deliver g (map (Pair 0) outs)) = [aiohttp_request_to_function p outs]"
    by (simp add: aiohttp_request_to_function_def)
  ultimately show ?thesis by simp
qed

section \<open>The tally\<close>

lemma tally_has_status:
  assumes "\<forall>r \<in> set rs. has_status (Done r)"
  shows "\<exists>s' f'. tally rs (s, f) = Inr (s', f')
     \<and> length s' = length s + length (filter (\<lambda>r. says_success (Done r)) rs)
     \<and> length f' = length f + length (filter (\<lambda>r. \<not> says_success (Done r)) rs)"
  using assms
proof (induction rs arbitrary: s f)
  case Nil
  show ?case by simp
next
  case (Cons r rs)
  from Cons.prems have "has_status (Done r)" by simp
  then obtain kvs v where r: "r = ResponseText (Parsed (JObject kvs))"
    and v: "map_of kvs ''status'' = Some v"
    by (auto elim!: has_status.elims(2))
  from Cons.prems have rest: "\<forall>r \<in> set rs. has_status (Done r)" by simp
  show ?case
  proof (cases "v = JString ''Success''")
    case True
    from Cons.IH [OF rest, of "s @ [r]" f] True r v show ?thesis by auto
  next
    case False
    from Cons.IH [OF rest, of s "f @ [JObject kvs]"] False r v show ?thesis by auto
  qed
qed

lemma tally_raises:
  assumes "r \<in> set rs" "json_loads r = Inl e"
  shows "\<exists>e'. tally rs acc = Inl e'"
  using assms(1)
proof (induction rs arbitrary: acc)
  case Nil
  then show ?case by simp
next
  case (Cons x rs)
  obtain s f where acc: "acc = (s, f)" by (cases acc)
  show ?case
  proof (cases "x = r")
    case True
    with assms(2) show ?thesis by (simp add: acc)
  next
    case False
    with Cons.prems have "r \<in> set rs" by simp
    from Cons.IH [OF this] show ?thesis
      by (auto simp: acc Let_def split: sum.split)
  qed
qed

lemma count_in_order:
  assumes "distinct order" "set order = {i. i < length ts}"
  shows "length (filter P (map (\<lambda>i. f (ts ! i)) order)) = length (filter (\<lambda>t. P (f t)) ts)"
proof -
  have "length (filter P (map (\<lambda>i. f (ts ! i)) order))
      = length (filter (\<lambda>i. P (f (ts ! i))) order)"
    by (simp add: filter_map o_def)
  also have "\<dots> = card ({i. P (f (ts ! i))} \<inter> set order)"
    using assms(1) by (rule distinct_length_filter)
  also have "{i. P (f (ts ! i))} \<inter> set order = {i. i < length ts \<and> P (f (ts ! i))}"
    using assms(2) by auto
  also have "card \<dots> = length (filter (\<lambda>t. P (f t)) ts)"
    by (simp add: length_filter_conv_card)
  finally show ?thesis .
qed

lemma the_result_Done: "is_done (state t) \<Longrightarrow> Done (the_result t) = state t"
  by (cases "state t") (simp_all add: the_result_def)

lemma has_status_is_done: "has_status s \<Longrightarrow> is_done s"
  by (auto elim!: has_status.elims(2))

lemma is_done_not_running: "is_done s \<Longrightarrow> s \<noteq> Running \<and> \<not> has_raised s"
  by (cases s) simp_all

text \<open>What the dispatcher does once every task has returned.\<close>

lemma async_requests_all_done:
  assumes "run_group ps schedule = Some g" "group_inv g"
    "\<forall>t \<in> set (tasks g). is_done (state t)"
  shows "async_requests ps schedule =
     (case tally (map (\<lambda>i. the_result (tasks g ! i)) (task_results g)) ([], []) of
        Inl e \<Rightarrow> Some (Inl e)
      | Inr (successful_data_loads, failed_data_loads) \<Rightarrow>
          Some (Inr \<lparr>data_load_attempts = length ps,
                     data_load_sucesses = length successful_data_loads,
                     data_load_failures = length failed_data_loads\<rparr>))"
    and "distinct (task_results g)"
    and "set (task_results g) = {i. i < length (tasks g)}"
proof -
  from assms(3) have nr: "\<forall>t \<in> set (tasks g). state t \<noteq> Running"
    and nf: "\<forall>t \<in> set (tasks g). \<not> has_raised (state t)"
    using is_done_not_running by blast+
  from nr nf assms(1) show "async_requests ps schedule =
     (case tally (map (\<lambda>i. the_result (tasks g ! i)) (task_results g)) ([], []) of
        Inl e \<Rightarrow> Some (Inl e)
      | Inr (successful_data_loads, failed_data_loads) \<Rightarrow>
          Some (Inr \<lparr>data_load_attempts = length ps,
                     data_load_sucesses = length successful_data_loads,
                     data_load_failures = length failed_data_loads\<rparr>))"
    by (simp add: async_requests_def)
  from assms(2) show "distinct (task_results g)" by (rule group_invD)
  have "{i. i < length (tasks g) \<and> state (tasks g ! i) \<noteq> Running} = {i. i < length (tasks g)}"
    using nr by auto
  then show "set (task_results g) = {i. i < length (tasks g)}"
    by (simp only: group_invD(2) [OF assms(2)])
qed

section \<open>The summary of the dispatcher\<close>

text \<open>
  Claim C1, at two inputs where the code leaves it; at both the claim has the summary
  \<open>attempts = 1\<close>, \<open>successes = 0\<close>, \<open>failures = 1\<close>. One job whose three
  requests are all answered with status 500: the job returns its failure dictionary, the
  dispatcher passes that dictionary to \<^verbatim>\<open>json.loads\<close>, and the TypeError leaves
  \<^verbatim>\<open>async_requests\<close>, so no summary is returned. One job whose three requests all end
  in a connection error: the job raises, the exception group is caught before any result
  is tallied, and the summary has \<open>failures = 0\<close>.
\<close>

theorem failed_job_is_not_tallied:
  "async_requests [sample_payload]
     [(0, Response False 500 (Text Malformed)), (0, Response False 500 (Text Malformed)),
      (0, Response False 500 (Text Malformed))]
   = Some (Inl TypeError)
   \<and> async_requests [sample_payload]
     [(0, ClientConnectionError), (0, ClientConnectionError), (0, ClientConnectionError)]
   = Some (Inr \<lparr>data_load_attempts = 1, data_load_sucesses = 0, data_load_failures = 0\<rparr>)"
  by code_simp

section \<open>A task that raises\<close>

text \<open>
  Claim C2 as stated fails: of two jobs, the first meets three connection errors and
  raises (UnboundLocalError, as under claim C3) while the second still waits for its
  first response. The task group cancels the second job, which ends without having had
  any response.
\<close>

theorem sibling_is_cancelled:
  "map_option (\<lambda>g. map state (tasks g))
     (run_group [sample_payload, sample_payload]
        [(0, ClientConnectionError), (0, ClientConnectionError), (0, ClientConnectionError)])
   = Some [Failed UnboundLocalError, Cancelled]"
  by code_simp

text \<open>
  The step at which a task raises cancels every task that was running.
\<close>

lemma raising_step_cancels_running:
  assumes "i < length (tasks g)" "state (tasks g ! i) = Running"
    "state (resume (tasks g ! i) out) = Failed e"
    "j < length (tasks g)" "j \<noteq> i" "state (tasks g ! j) = Running"
  shows "state (tasks (deliver g (i, out)) ! j) = Cancelled"
  using assms by (simp add: deliver_def Let_def abort_def cancel_def)

text \<open>
  Claim C2 as amended. Whatever the jobs and the order of events: once a task has raised,
  no task is running any more (each has returned, has raised or is cancelled), so no
  later event changes the group; and the dispatcher does not raise: it returns the
  summary with \<open>attempts = len(jobs)\<close> and both other counts 0.
\<close>

theorem raised_task_ends_group:
  "\<exists>g. run_group ps schedule = Some g
     \<and> ((\<exists>t \<in> set (tasks g). has_raised (state t)) \<longrightarrow>
          (\<forall>t \<in> set (tasks g). state t \<noteq> Running)
          \<and> (\<forall>ev. deliver g ev = g)
          \<and> async_requests ps schedule
              = Some (Inr \<lparr>data_load_attempts = length ps, data_load_sucesses = 0,
                           data_load_failures = 0\<rparr>))"
proof -
  obtain g where g: "run_group ps schedule = Some g" "group_inv g"
    by (rule run_group_inv)
  have "(\<forall>t \<in> set (tasks g). state t \<noteq> Running)
          \<and> (\<forall>ev. deliver g ev = g)
          \<and> async_requests ps schedule
              = Some (Inr \<lparr>data_load_attempts = length ps, data_load_sucesses = 0,
                           data_load_failures = 0\<rparr>)"
    if raised: "\<exists>t \<in> set (tasks g). has_raised (state t)"
  proof -
    from group_invD(3) [OF g(2)] raised
    have nr: "\<forall>t \<in> set (tasks g). state t \<noteq> Running" by blast
    have "deliver g ev = g" for ev
    proof (cases ev)
      case (Pair i out)
      with nr show ?thesis by (auto simp: deliver_def)
    qed
    moreover have "async_requests ps schedule
              = Some (Inr \<lparr>data_load_attempts = length ps, data_load_sucesses = 0,
                           data_load_failures = 0\<rparr>)"
      using g(1) nr raised by (simp add: async_requests_def)
    ultimately show ?thesis using nr by blast
  qed
  with g(1) show ?thesis by blast
qed

theorem raised_task_ends_group_witness:
  "async_requests [sample_payload, sample_payload]
     [(0, ClientConnectionError), (0, ClientConnectionError), (0, ClientConnectionError)]
   = Some (Inr \<lparr>data_load_attempts = 2, data_load_sucesses = 0, data_load_failures = 0\<rparr>)"
proof -
  let ?ps = "[sample_payload, sample_payload]"
  let ?sch = "[(0, ClientConnectionError), (0, ClientConnectionError),
      (0::nat, ClientConnectionError)]"
  have run: "map_option (\<lambda>g. map state (tasks g)) (run_group ?ps ?sch)
      = Some [Failed UnboundLocalError, Cancelled]"
    by code_simp
  from raised_task_ends_group [of ?ps ?sch]
  obtain g where g: "run_group ?ps ?sch = Some g"
    and imp: "(\<exists>t \<in> set (tasks g). has_raised (state t)) \<longrightarrow>
          (\<forall>t \<in> set (tasks g). state t \<noteq> Running)
          \<and> (\<forall>ev. deliver g ev = g)
          \<and> async_requests ?ps ?sch
              = Some (Inr \<lparr>data_load_attempts = length ?ps,
                           data_load_sucesses = 0, data_load_failures = 0\<rparr>)"
    by blast
  from run g have "map state (tasks g) = [Failed UnboundLocalError, Cancelled]" by simp
  then have "Failed UnboundLocalError \<in> set (map state (tasks g))" by simp
  then obtain t where "t \<in> set (tasks g)" "state t = Failed UnboundLocalError" by auto
  then have "\<exists>t \<in> set (tasks g). has_raised (state t)" by force
  with imp show ?thesis by simp
qed

section \<open>Which answers count as a success\<close>

text \<open>
  Claim C4 as stated fails: one job whose response is \<^verbatim>\<open>ok\<close> and whose body is not
  JSON. The claim has the job tallied as a failure; the dispatcher raises the
  JSONDecodeError of \<^verbatim>\<open>json.loads\<close> instead.
\<close>

theorem malformed_body_raises:
  "async_requests [sample_payload] [(0, Response True 200 (Text Malformed))]
     = Some (Inl JSONDecodeError)"
  by code_simp

text \<open>
  Claim C4 as amended. When every job has returned a body that parses as a JSON object
  with a \<^verbatim>\<open>status\<close> field, the dispatcher returns the summary in which a job counts
  as a success if and only if that field equals \<^verbatim>\<open>"Success"\<close>, and as a failure for
  any other value; the two counts add up to the number of jobs. When every job has
  returned and the body of one of them is not JSON, the dispatcher raises.
\<close>

theorem tally_by_status:
  "\<exists>g. run_group ps schedule = Some g
     \<and> ((\<forall>t \<in> set (tasks g). has_status (state t)) \<longrightarrow>
          async_requests ps schedule
            = Some (Inr \<lparr>data_load_attempts = length ps,
                         data_load_sucesses = length (filter (\<lambda>t. says_success (state t)) (tasks g)),
                         data_load_failures = length (filter (\<lambda>t. \<not> says_success (state t)) (tasks g))\<rparr>)
          \<and> length (filter (\<lambda>t. says_success (state t)) (tasks g))
              + length (filter (\<lambda>t. \<not> says_success (state t)) (tasks g)) = length ps)
     \<and> ((\<forall>t \<in> set (tasks g). is_done (state t))
          \<and> (\<exists>t \<in> set (tasks g). state t = Done (ResponseText Malformed)) \<longrightarrow>
          (\<exists>e. async_requests ps schedule = Some (Inl e)))"
proof -
  obtain g where g: "run_group ps schedule = Some g" "group_inv g"
    "length (tasks g) = length ps"
    by (rule run_group_inv)
  let ?rs = "map (\<lambda>i. the_result (tasks g ! i)) (task_results g)"
  have first: "async_requests ps schedule
            = Some (Inr \<lparr>data_load_attempts = length ps,
                         data_load_sucesses = length (filter (\<lambda>t. says_success (state t)) (tasks g)),
                         data_load_failures = length (filter (\<lambda>t. \<not> says_success (state t)) (tasks g))\<rparr>)
          \<and> length (filter (\<lambda>t. says_success (state t)) (tasks g))
              + length (filter (\<lambda>t. \<not> says_success (state t)) (tasks g)) = length ps"
    if hs: "\<forall>t \<in> set (tasks g). has_status (state t)"
  proof -
    from hs have dn: "\<forall>t \<in> set (tasks g). is_done (state t)"
      using has_status_is_done by blast
    note ad = async_requests_all_done [OF g(1,2) dn]
    have "\<forall>r \<in> set ?rs. has_status (Done r)"
    proof
      fix r assume "r \<in> set ?rs"
      then obtain i where "i \<in> set (task_results g)" "r = the_result (tasks g ! i)" by auto
      with ad(3) have "tasks g ! i \<in> set (tasks g)" "r = the_result (tasks g ! i)" by simp_all
      with hs dn show "has_status (Done r)" by (simp add: the_result_Done)
    qed
    from tally_has_status [OF this, of "[]" "[]"]
    obtain s' f' where t: "tally ?rs ([], []) = Inr (s', f')"
      "length s' = length (filter (\<lambda>r. says_success (Done r)) ?rs)"
      "length f' = length (filter (\<lambda>r. \<not> says_success (Done r)) ?rs)"
      by auto
    have same: "says_success (Done (the_result t)) = says_success (state t)"
      if "t \<in> set (tasks g)" for t
      using that dn by (simp add: the_result_Done)
    have "length s' = length (filter (\<lambda>t. says_success (Done (the_result t))) (tasks g))"
      unfolding t(2) using ad(2,3) by (rule count_in_order)
    also have "\<dots> = length (filter (\<lambda>t. says_success (state t)) (tasks g))"
      using same by (metis (mono_tags, lifting) filter_cong)
    finally have s: "length s' = length (filter (\<lambda>t. says_success (state t)) (tasks g))" .
    have "length f' = length (filter (\<lambda>t. \<not> says_success (Done (the_result t))) (tasks g))"
      unfolding t(3) using ad(2,3) by (rule count_in_order)
    also have "\<dots> = length (filter (\<lambda>t. \<not> says_success (state t)) (tasks g))"
      using same by (metis (mono_tags, lifting) filter_cong)
    finally have f: "length f' = length (filter (\<lambda>t. \<not> says_success (state t)) (tasks g))" .
    have "async_requests ps schedule
            = Some (Inr \<lparr>data_load_attempts = length ps,
                         data_load_sucesses = length s', data_load_failures = length f'\<rparr>)"
      by (simp add: ad(1) t(1))
    moreover have "length (filter (\<lambda>t. says_success (state t)) (tasks g))
              + length (filter (\<lambda>t. \<not> says_success (state t)) (tasks g)) = length ps"
      using sum_length_filter_compl [of "\<lambda>t. says_success (state t)" "tasks g"] g(3) by simp
    ultimately show ?thesis by (simp add: s f)
  qed
  have second: "\<exists>e. async_requests ps schedule = Some (Inl e)"
    if dn: "\<forall>t \<in> set (tasks g). is_done (state t)"
      and mal: "\<exists>t \<in> set (tasks g). state t = Done (ResponseText Malformed)"
  proof -
    note ad = async_requests_all_done [OF g(1,2) dn]
    from mal obtain t where t: "t \<in> set (tasks g)" "state t = Done (ResponseText Malformed)"
      by blast
    then obtain i where i: "i < length (tasks g)" "tasks g ! i = t"
      by (auto simp: in_set_conv_nth)
    with ad(3) have "i \<in> set (task_results g)" by simp
    then have "the_result (tasks g ! i) \<in> set ?rs" by simp
    moreover have "the_result (tasks g ! i) = ResponseText Malformed"
      using i t by (simp add: the_result_def)
    ultimately have "ResponseText Malformed \<in> set ?rs" by simp
    from tally_raises [OF this, of JSONDecodeError "([], [])"]
    obtain e' where "tally ?rs ([], []) = Inl e'" by auto
    then show ?thesis by (simp add: ad(1))
  qed
  from g(1) first second show ?thesis by blast
qed

theorem tally_by_status_witness:
  "async_requests [sample_payload, sample_payload]
     [(1, Response True 200 (Text (Parsed (JObject [(''status'', JString ''Success'')])))),
      (0, Response True 200 (Text (Parsed (JObject [(''status'', JString ''Failed'')]))))]
   = Some (Inr \<lparr>data_load_attempts = 2, data_load_sucesses = 1, data_load_failures = 1\<rparr>)
   \<and> (\<exists>e. async_requests [sample_payload] [(0, Response True 200 (Text Malformed))]
            = Some (Inl e))"
proof -
  let ?ps = "[sample_payload, sample_payload]"
  let ?sch = "[(1, Response True 200 (Text (Parsed (JObject [(''status'', JString ''Success'')])))),
      (0, Response True 200 (Text (Parsed (JObject [(''status'', JString ''Failed'')]))))]"
  have run: "map_option (\<lambda>g. map state (tasks g)) (run_group ?ps ?sch)
      = Some [Done (ResponseText (Parsed (JObject [(''status'', JString ''Failed'')]))),
              Done (ResponseText (Parsed (JObject [(''status'', JString ''Success'')])))]"
    by code_simp
  from tally_by_status [of ?ps ?sch]
  obtain g where g: "run_group ?ps ?sch = Some g"
    and imp: "(\<forall>t \<in> set (tasks g). has_status (state t)) \<longrightarrow>
          async_requests ?ps ?sch
            = Some (Inr \<lparr>data_load_attempts = length ?ps,
                         data_load_sucesses = length (filter (\<lambda>t. says_success (state t)) (tasks g)),
                         data_load_failures = length (filter (\<lambda>t. \<not> says_success (state t)) (tasks g))\<rparr>)
          \<and> length (filter (\<lambda>t. says_success (state t)) (tasks g))
              + length (filter (\<lambda>t. \<not> says_success (state t)) (tasks g)) = length ?ps"
    by blast
  from run g have st: "map state (tasks g)
      = [Done (ResponseText (Parsed (JObject [(''status'', JString ''Failed'')]))),
         Done (ResponseText (Parsed (JObject [(''status'', JString ''Success'')])))]"
    by simp
  have "\<forall>s \<in> set (map state (tasks g)). has_status s"
    unfolding st by simp
  then have hs: "\<forall>t \<in> set (tasks g). has_status (state t)" by simp
  have cnt: "length (filter (\<lambda>t. P (state t)) (tasks g)) = length (filter P (map state (tasks g)))"
    for P by (simp add: filter_map o_def)
  have a: "async_requests ?ps ?sch
      = Some (Inr \<lparr>data_load_attempts = 2, data_load_sucesses = 1, data_load_failures = 1\<rparr>)"
    using imp hs unfolding cnt st by simp
  let ?ps1 = "[sample_payload]"
  let ?sch1 = "[(0, Response True 200 (Text Malformed))]"
  have run1: "map_option (\<lambda>g. map state (tasks g)) (run_group ?ps1 ?sch1)
      = Some [Done (ResponseText Malformed)]"
    by code_simp
  from tally_by_status [of ?ps1 ?sch1]
  obtain g1 where g1: "run_group ?ps1 ?sch1 = Some g1"
    and imp1: "(\<forall>t \<in> set (tasks g1). is_done (state t))
          \<and> (\<exists>t \<in> set (tasks g1). state t = Done (ResponseText Malformed)) \<longrightarrow>
          (\<exists>e. async_requests ?ps1 ?sch1 = Some (Inl e))"
    by blast
  from run1 g1 have st1: "map state (tasks g1) = [Done (ResponseText Malformed)]" by simp
  have "\<forall>s \<in> set (map state (tasks g1)). is_done s" unfolding st1 by simp
  then have d1: "\<forall>t \<in> set (tasks g1). is_done (state t)" by simp
  have "Done (ResponseText Malformed) \<in> set (map state (tasks g1))" unfolding st1 by simp
  then have m1: "\<exists>t \<in> set (tasks g1). state t = Done (ResponseText Malformed)" by auto
  from imp1 d1 m1 have b: "\<exists>e. async_requests ?ps1 ?sch1 = Some (Inl e)" by blast
  from a b show ?thesis by blast
qed

section \<open>The rate limiter of a batch\<close>

lemma run_group_no_events:
  "\<exists>g. run_group ps [] = Some g
     \<and> limiters g = replicate (length ps) \<lparr>max_rate = 600, time_period = 60, level = 1\<rparr>
     \<and> map rate_limit (tasks g) = [0..<length ps]
     \<and> map state (tasks g) = replicate (length ps) Running"
proof -
  obtain g where g: "create_tasks empty_group ps = Some g"
    "length (tasks g) = length ps"
    "\<forall>i<length ps. tasks g ! i = new_task (ps ! i) i"
    "limiters g = replicate (length ps) \<lparr>max_rate = 600, time_period = 60, level = 1\<rparr>"
    by (rule created)
  have "run_group ps [] = Some g"
    using g(1) by (simp add: run_group_def empty_group_def)
  moreover have "map rate_limit (tasks g) = [0..<length ps]"
    using g(2,3) by (intro nth_equalityI) (simp_all add: new_task_def)
  moreover have "map state (tasks g) = replicate (length ps) Running"
    using g(2,3) by (intro nth_equalityI) (simp_all add: new_task_def)
  ultimately show ?thesis using g(4) by blast
qed

text \<open>
  One limiter shared by the jobs grants 600 of them and makes the next one wait.
\<close>

lemma acquire_shared_eq:
  "level l \<le> max_rate l \<Longrightarrow> acquire_shared n l =
     (if level l + n \<le> max_rate l then Some (l\<lparr>level := level l + n\<rparr>) else None)"
  by (induction n arbitrary: l) (simp_all add: acquire_def)

lemma shared_limiter_waits:
  "acquire_shared 600 (AsyncLimiter 600 60)
     = Some \<lparr>max_rate = 600, time_period = 60, level = 600\<rparr>"
  "acquire_shared 601 (AsyncLimiter 600 60) = None"
  by (simp_all add: acquire_shared_eq AsyncLimiter_def)

text \<open>
  Claim C9, at an input where the code leaves it: a batch of 601 jobs. The claim has one
  limiter shared by the jobs of the batch, which grants 600 requests in a window and
  makes the next one wait. In the code every job constructs its own
  \<^verbatim>\<open>AsyncLimiter(600, 60)\<close> and acquires it once, before its first request: the batch
  holds 601 limiters, each at level 1 of 600, and all 601 jobs are running at once.
\<close>

theorem one_limiter_per_job:
  "\<exists>g. run_group (replicate 601 sample_payload) [] = Some g
     \<and> limiters g = replicate 601 \<lparr>max_rate = 600, time_period = 60, level = 1\<rparr>
     \<and> map rate_limit (tasks g) = [0..<601]
     \<and> map state (tasks g) = replicate 601 Running"
  using run_group_no_events [of "replicate 601 sample_payload"] by simp

section \<open>A request without templates\<close>

text \<open>
  Claim C10. When the template selection yields no templates, standard or custom, the
  entry point returns the dictionary with status \<^verbatim>\<open>"Failed"\<close>, the message and the
  request data it was given; it has called the planner for no template and has handed
  no payload list to the dispatcher.
\<close>

theorem no_templates_fails_without_work:
  assumes "select_templates (extract_standard_extraction_templates_dict rq)
             (standard_extraction_templates rq)
           @ select_templates (extract_custom_extraction_templates_dict rq)
               (custom_extraction_templates rq) = []"
  shows "prep_request_batches rq schedule =
     \<lparr>returned = Some (Inr (JObject [(''status'', JString ''Failed''),
                                    (''message'', JString no_templates_message),
                                    (''request_data'', request_data rq)])),
      planned = [], dispatched = None\<rparr>"
  using assms by (simp add: prep_request_batches_def)

text \<open>
  A request that asks for one standard template by a name the configuration does not
  have, and for no custom template.
\<close>

theorem no_templates_fails_without_work_witness:
  "prep_request_batches
     \<lparr>request_data = JObject [(''standard_extraction_templates'',
                                JObject [(''include'', JArray [JString ''users''])])],
      extract_start_date = ''2023-01-01'', extract_end_date = ''2023-01-01'',
      extract_standard_extraction_templates_dict =
        Some \<lparr>load_all = JNull, include_names = Some [''users'']\<rparr>,
      extract_custom_extraction_templates_dict = None,
      standard_extraction_templates =
        [\<lparr>name = ''sessions'', batch_freq = Some ''daily'', parameters = []\<rparr>],
      custom_extraction_templates =
        [\<lparr>name = ''orders'', batch_freq = None, parameters = []\<rparr>],
      general_request_configs = [(''view_id'', JString ''70747477'')]\<rparr>
     [(0, ClientConnectionError)]
   = \<lparr>returned = Some (Inr (JObject [(''status'', JString ''Failed''),
                                    (''message'', JString no_templates_message),
                                    (''request_data'',
                                     JObject [(''standard_extraction_templates'',
                                               JObject [(''include'', JArray [JString ''users''])])])])),
      planned = [], dispatched = None\<rparr>"
proof -
  let ?rq = "\<lparr>request_data = JObject [(''standard_extraction_templates'',
                                JObject [(''include'', JArray [JString ''users''])])],
      extract_start_date = ''2023-01-01'', extract_end_date = ''2023-01-01'',
      extract_standard_extraction_templates_dict =
        Some \<lparr>load_all = JNull, include_names = Some [''users'']\<rparr>,
      extract_custom_extraction_templates_dict = None,
      standard_extraction_templates =
        [\<lparr>name = ''sessions'', batch_freq = Some ''daily'', parameters = []\<rparr>],
      custom_extraction_templates =
        [\<lparr>name = ''orders'', batch_freq = None, parameters = []\<rparr>],
      general_request_configs = [(''view_id'', JString ''70747477'')]\<rparr>"
  have none: "select_templates (extract_standard_extraction_templates_dict ?rq)
             (standard_extraction_templates ?rq)
           @ select_templates (extract_custom_extraction_templates_dict ?rq)
               (custom_extraction_templates ?rq) = []"
    by (simp add: select_templates_def)
  from no_templates_fails_without_work [OF none, of "[(0, ClientConnectionError)]"]
  show ?thesis by simp
qed

end
